theory Spec2Isabelle
  imports Complex_Main "HOL-Library.Word" "HOL-Library.Signed_Division" "HOL-Library.Sublist"
begin

section \<open>Values\<close>

text \<open>
  Modelled from the spec: the class \<^verbatim>\<open>Value\<close> that the virtual machine of
  \<^verbatim>\<open>src/engine/virtualmachine.cpp\<close> computes on (value.h is not under src/). The spec
  gives its shape: a tagged union over a 64-bit integer, a double, a boolean, a string and
  the three special values.

  A finite double is represented by the real number it denotes. Reading a double
  (comparing it, truncating it to a \<^verbatim>\<open>long\<close>) is exact on that representation. Whatever
  computes a new double (the C library's \<^verbatim>\<open>tan\<close> and \<^verbatim>\<open>atan\<close>, the numeric parse of a
  string, double addition) is rounded by the hardware and is therefore a parameter of
  the model, collected in the record \<open>ValueOps\<close>.
\<close>

datatype SpecialValue = Infinity | NegativeInfinity | NaN

datatype Value =
    Integer int
  | Double real
  | Bool bool
  | String string
  | Special SpecialValue

text \<open>
  A C++ \<^verbatim>\<open>double\<close>, the result type of \<^verbatim>\<open>Value::toDouble()\<close>: a finite double, one of
  the two infinities, or a NaN.
\<close>

datatype double = NegInf | Finite real | PosInf | NotANumber

text \<open>
  \<open>parseNumber h s\<close> is the numeric parse of a string: the number the string parses to, or
  \<open>None\<close> when it does not parse to a number. \<open>doubleToString h x\<close> is the text of a finite
  double. \<open>tanDegrees h x\<close> stands for the double \<^verbatim>\<open>std::tan(x * pi / 180)\<close> and
  \<open>atanDegrees h x\<close> for the double \<^verbatim>\<open>std::atan(x) * 180 / pi\<close>; both are finite for every
  finite \<open>x\<close>.
\<close>

record ValueOps =
  parseNumber :: "string \<Rightarrow> real option"
  stringToLong :: "string \<Rightarrow> int"
  doubleToString :: "real \<Rightarrow> string"
  otherToBool :: "Value \<Rightarrow> bool"
  addDouble :: "real \<Rightarrow> real \<Rightarrow> real"
  tanDegrees :: "real \<Rightarrow> real"
  atanDegrees :: "real \<Rightarrow> real"

definition isInfinity :: "Value \<Rightarrow> bool" where
  "isInfinity v = (v = Special Infinity)"

definition isNegativeInfinity :: "Value \<Rightarrow> bool" where
  "isNegativeInfinity v = (v = Special NegativeInfinity)"

text \<open>
  Modelled from the spec: \<^verbatim>\<open>Value::toLong()\<close> (value.h is not under src/). A long is
  returned as it is, a double is truncated towards zero as the C++ conversion does, a
  boolean is 0 or 1, a string goes through the numeric parse, and a special value has no
  integer reading and gives 0.
\<close>

definition toLong :: "ValueOps \<Rightarrow> Value \<Rightarrow> int" where
  "toLong h v =
     (case v of
        Integer n \<Rightarrow> n
      | Double r \<Rightarrow> (if 0 \<le> r then \<lfloor>r\<rfloor> else \<lceil>r\<rceil>)
      | Bool b \<Rightarrow> (if b then 1 else 0)
      | String s \<Rightarrow> stringToLong h s
      | Special s \<Rightarrow> 0)"

text \<open>
  Modelled from the spec: the number a Value parses to, if it does (value.h is not under
  src/). A long, a double and a boolean are numbers, the two infinities are the infinite
  doubles, a string is the number its numeric parse gives, and NaN is not a number.
\<close>

definition toNumber :: "ValueOps \<Rightarrow> Value \<Rightarrow> double option" where
  "toNumber h v =
     (case v of
        Integer n \<Rightarrow> Some (Finite (of_int n))
      | Double r \<Rightarrow> Some (Finite r)
      | Bool b \<Rightarrow> Some (Finite (if b then 1 else 0))
      | String s \<Rightarrow> map_option Finite (parseNumber h s)
      | Special Infinity \<Rightarrow> Some PosInf
      | Special NegativeInfinity \<Rightarrow> Some NegInf
      | Special NaN \<Rightarrow> None)"

text \<open>
  Modelled from the spec: \<^verbatim>\<open>Value::toDouble()\<close> (value.h is not under src/): "arithmetic on
  a string first coerces via numeric parse (empty -> 0, non-numeric -> 0 [...], NaN
  propagates in sqrt/sin/...)". A string that does not parse to a number reads as 0, and
  NaN reads as a NaN double, which the functions of the C library propagate.
\<close>

definition toDouble :: "ValueOps \<Rightarrow> Value \<Rightarrow> double" where
  "toDouble h v =
     (case v of
        Integer n \<Rightarrow> Finite (of_int n)
      | Double r \<Rightarrow> Finite r
      | Bool b \<Rightarrow> Finite (if b then 1 else 0)
      | String s \<Rightarrow> (case parseNumber h s of Some x \<Rightarrow> Finite x | None \<Rightarrow> Finite 0)
      | Special Infinity \<Rightarrow> PosInf
      | Special NegativeInfinity \<Rightarrow> NegInf
      | Special NaN \<Rightarrow> NotANumber)"

text \<open>
  Modelled from the spec: \<^verbatim>\<open>Value::toString()\<close> (value.h is not under src/): a string is
  itself, a long is written in decimal, the special values by their names; the text of a
  double is the parameter \<open>doubleToString\<close>.
\<close>

fun natToString :: "nat \<Rightarrow> string" where
  "natToString n =
     (if n < 10 then [char_of (48 + n)]
      else natToString (n div 10) @ [char_of (48 + n mod 10)])"

declare natToString.simps [simp del]

definition toString :: "ValueOps \<Rightarrow> Value \<Rightarrow> string" where
  "toString h v =
     (case v of
        Integer n \<Rightarrow> (if n < 0 then CHR ''-'' # natToString (nat (- n)) else natToString (nat n))
      | Double r \<Rightarrow> doubleToString h r
      | Bool b \<Rightarrow> (if b then ''true'' else ''false'')
      | String s \<Rightarrow> s
      | Special Infinity \<Rightarrow> ''Infinity''
      | Special NegativeInfinity \<Rightarrow> ''-Infinity''
      | Special NaN \<Rightarrow> ''NaN'')"

text \<open>
  \<^verbatim>\<open>Value::toBool()\<close> (value.h is not under src/): a boolean is its own truth value; how
  the other kinds of value are read as a condition is not said in the spec and is the
  parameter \<open>otherToBool\<close>.
\<close>

definition toBool :: "ValueOps \<Rightarrow> Value \<Rightarrow> bool" where
  "toBool h v = (case v of Bool b \<Rightarrow> b | _ \<Rightarrow> otherToBool h v)"

text \<open>
  The order of doubles, with the infinities at the two ends; a comparison with a NaN is
  false.
\<close>

fun double_less :: "double \<Rightarrow> double \<Rightarrow> bool" where
  "double_less NegInf d = (d \<noteq> NegInf \<and> d \<noteq> NotANumber)"
| "double_less (Finite x) NegInf = False"
| "double_less (Finite x) (Finite y) = (x < y)"
| "double_less (Finite x) PosInf = True"
| "double_less (Finite x) NotANumber = False"
| "double_less PosInf d = False"
| "double_less NotANumber d = False"

text \<open>
  The order of strings without regard to case: the letters \<open>A\<close> to \<open>Z\<close> are read as
  \<open>a\<close> to \<open>z\<close>, and the strings are compared character by character on their codes.
\<close>

definition toLower :: "char \<Rightarrow> char" where
  "toLower c =
     (if 65 \<le> (of_char c :: nat) \<and> (of_char c :: nat) \<le> 90
      then char_of ((of_char c :: nat) + 32) else c)"

fun string_less :: "string \<Rightarrow> string \<Rightarrow> bool" where
  "string_less [] [] = False"
| "string_less [] (y # ys) = True"
| "string_less (x # xs) [] = False"
| "string_less (x # xs) (y # ys) =
     ((of_char x :: nat) < of_char y \<or> (x = y \<and> string_less xs ys))"

text \<open>
  Modelled from the spec: \<^verbatim>\<open>operator<\<close> and \<^verbatim>\<open>operator>\<close> of Value (value.h is not under
  src/): "equality is numeric if both sides parse to numbers, otherwise case-insensitive
  string equality; ordering is the same rule extended with total order on numerics". When
  one side is not a number the two sides are compared as strings without regard to case.
  The integer constants that \<^verbatim>\<open>do_atan\<close> compares with are converted to Values.
\<close>

definition value_less :: "ValueOps \<Rightarrow> Value \<Rightarrow> Value \<Rightarrow> bool" where
  "value_less h v1 v2 =
     (case (toNumber h v1, toNumber h v2) of
        (Some a, Some b) \<Rightarrow> double_less a b
      | _ \<Rightarrow> string_less (map toLower (toString h v1)) (map toLower (toString h v2)))"

definition value_greater :: "ValueOps \<Rightarrow> Value \<Rightarrow> Value \<Rightarrow> bool" where
  "value_greater h v1 v2 = value_less h v2 v1"

text \<open>
  Modelled from the spec: \<^verbatim>\<open>Value::add\<close> (value.h is not under src/). Two longs add as
  longs (signed overflow is undefined in C++ and is not modelled); opposite infinities
  give NaN, one infinity wins over everything finite; everything else adds as doubles.
  \<open>arithmetic\<close> is the operand as a double: what is not a number counts as 0, so the
  last case, of a NaN double, does not arise.
\<close>

definition arithmetic :: "ValueOps \<Rightarrow> Value \<Rightarrow> double" where
  "arithmetic h v = (case toNumber h v of Some d \<Rightarrow> d | None \<Rightarrow> Finite 0)"

definition add :: "ValueOps \<Rightarrow> Value \<Rightarrow> Value \<Rightarrow> Value" where
  "add h a b =
     (case (a, b) of
        (Integer x, Integer y) \<Rightarrow> Integer (x + y)
      | _ \<Rightarrow>
        (case (arithmetic h a, arithmetic h b) of
           (Finite x, Finite y) \<Rightarrow> Double (addDouble h x y)
         | (PosInf, NegInf) \<Rightarrow> Special NaN
         | (NegInf, PosInf) \<Rightarrow> Special NaN
         | (PosInf, _) \<Rightarrow> Special Infinity
         | (_, PosInf) \<Rightarrow> Special Infinity
         | (NegInf, _) \<Rightarrow> Special NegativeInfinity
         | (_, NegInf) \<Rightarrow> Special NegativeInfinity
         | _ \<Rightarrow> Special NaN))"

section \<open>Math opcodes on one register\<close>

text \<open>
  \<^verbatim>\<open>do_tan\<close> (virtualmachine.cpp, lines 381-395), as a function from the operand register
  to the value that replaces it. \<^verbatim>\<open>%\<close> on \<^verbatim>\<open>long\<close> truncates towards zero, which is
  \<open>smod\<close>. The last branch is reached with a finite operand or with NaN; \<^verbatim>\<open>std::tan\<close> of
  a double that is not finite is NaN.
\<close>

definition do_tan :: "ValueOps \<Rightarrow> Value \<Rightarrow> Value" where
  "do_tan h v =
     (if isInfinity v \<or> isNegativeInfinity v then Special NaN
      else
        let m = toLong h v smod 360 in
        if m = 90 then Special Infinity
        else if m = 270 then Special NegativeInfinity
        else (case toDouble h v of
                Finite x \<Rightarrow> Double (tanDegrees h x)
              | _ \<Rightarrow> Special NaN))"

text \<open>
  \<^verbatim>\<open>do_atan\<close> (virtualmachine.cpp, lines 415-422), as a function from the operand
  register to the value that replaces it. \<^verbatim>\<open>std::atan\<close> of an infinite double is a right
  angle and of a NaN a NaN; the theorem on this opcode shows that the last branch is
  reached with a finite double only.
\<close>

definition do_atan :: "ValueOps \<Rightarrow> Value \<Rightarrow> Value" where
  "do_atan h v =
     (if value_less h v (Integer (- 1)) \<or> value_greater h v (Integer 1) then Special NaN
      else (case toDouble h v of
              Finite x \<Rightarrow> Double (atanDegrees h x)
            | PosInf \<Rightarrow> Double 90
            | NegInf \<Rightarrow> Double (- 90)
            | NotANumber \<Rightarrow> Special NaN))"

section \<open>The virtual machine\<close>

text \<open>
  Bytecode is a stream of unsigned words held in memory; positions (\<^verbatim>\<open>unsigned int *\<close>) are
  addresses into it. The opcode numbers are the indices of \<^verbatim>\<open>dispatch_table\<close> in
  \<^verbatim>\<open>VirtualMachine::run\<close>; index 0 holds no label.
\<close>

abbreviation (input) OP_HALT :: nat where "OP_HALT \<equiv> 1"
abbreviation (input) OP_CONST :: nat where "OP_CONST \<equiv> 2"
abbreviation (input) OP_NULL :: nat where "OP_NULL \<equiv> 3"
abbreviation (input) OP_IF :: nat where "OP_IF \<equiv> 4"
abbreviation (input) OP_ELSE :: nat where "OP_ELSE \<equiv> 5"
abbreviation (input) OP_ENDIF :: nat where "OP_ENDIF \<equiv> 6"
abbreviation (input) OP_FOREVER_LOOP :: nat where "OP_FOREVER_LOOP \<equiv> 7"
abbreviation (input) OP_REPEAT_LOOP :: nat where "OP_REPEAT_LOOP \<equiv> 8"
abbreviation (input) OP_UNTIL_LOOP :: nat where "OP_UNTIL_LOOP \<equiv> 9"
abbreviation (input) OP_BEGIN_UNTIL_LOOP :: nat where "OP_BEGIN_UNTIL_LOOP \<equiv> 10"
abbreviation (input) OP_LOOP_END :: nat where "OP_LOOP_END \<equiv> 11"
abbreviation (input) OP_ADD :: nat where "OP_ADD \<equiv> 13"
abbreviation (input) OP_TAN :: nat where "OP_TAN \<equiv> 26"
abbreviation (input) OP_ATAN :: nat where "OP_ATAN \<equiv> 29"
abbreviation (input) OP_AND :: nat where "OP_AND \<equiv> 33"
abbreviation (input) OP_OR :: nat where "OP_OR \<equiv> 34"
abbreviation (input) OP_NOT :: nat where "OP_NOT \<equiv> 35"
abbreviation (input) OP_SET_VAR :: nat where "OP_SET_VAR \<equiv> 36"
abbreviation (input) OP_CHANGE_VAR :: nat where "OP_CHANGE_VAR \<equiv> 37"
abbreviation (input) OP_READ_VAR :: nat where "OP_READ_VAR \<equiv> 38"
abbreviation (input) OP_EXEC :: nat where "OP_EXEC \<equiv> 53"
abbreviation (input) OP_INIT_PROCEDURE :: nat where "OP_INIT_PROCEDURE \<equiv> 54"
abbreviation (input) OP_CALL_PROCEDURE :: nat where "OP_CALL_PROCEDURE \<equiv> 55"
abbreviation (input) OP_ADD_ARG :: nat where "OP_ADD_ARG \<equiv> 56"
abbreviation (input) OP_READ_ARG :: nat where "OP_READ_ARG \<equiv> 57"
abbreviation (input) OP_BREAK_ATOMIC :: nat where "OP_BREAK_ATOMIC \<equiv> 58"

abbreviation (input) MAX_REG_COUNT :: nat where "MAX_REG_COUNT \<equiv> 1024"

text \<open>
  Modelled from the spec: the table \<^verbatim>\<open>instruction_arg_count\<close> is declared in
  virtualmachine.h, which is not under src/. The spec lists the opcodes with their inline
  arguments (\<^verbatim>\<open>CONST k\<close>, \<^verbatim>\<open>SET_VAR v\<close>, \<^verbatim>\<open>CHANGE_VAR v\<close>, \<^verbatim>\<open>READ_VAR v\<close>, the ten list
  opcodes, \<^verbatim>\<open>EXEC f\<close>, \<^verbatim>\<open>CALL_PROCEDURE p\<close>, \<^verbatim>\<open>READ_ARG i\<close>), and the handlers in run() read
  exactly that many words with \<^verbatim>\<open>*++pos\<close>. An index past the last opcode reads outside
  the table.
\<close>

definition instruction_arg_count :: "nat \<Rightarrow> nat option" where
  "instruction_arg_count op =
     (if 58 < op then None
      else if op = OP_CONST \<or> (36 \<le> op \<and> op \<le> 48) \<or> op = OP_EXEC
              \<or> op = OP_CALL_PROCEDURE \<or> op = OP_READ_ARG then Some 1
      else Some 0)"

text \<open>
  Modelled from the spec: the struct \<^verbatim>\<open>Loop\<close> is declared in virtualmachine.h, which is
  not under src/. Its fields are the ones run() assigns. The counters are taken to be
  \<^verbatim>\<open>size_t\<close> like the local \<^verbatim>\<open>loopCount\<close> that is stored into \<^verbatim>\<open>max\<close>, so \<^verbatim>\<open>index = -1\<close>,
  the mark of a forever loop, is the all-ones word. A field run() leaves unassigned is 0.
\<close>

record Loop =
  isRepeatLoop :: bool
  loop_start :: nat
  loop_index :: "64 word"
  loop_max :: "64 word"

text \<open>
  The state of one VirtualMachine. \<open>regs\<close> is the array \<^verbatim>\<open>m_regs\<close> of \<open>MAX_REG_COUNT\<close>
  slots and \<open>regCount\<close> the number of slots in use. The vectors \<^verbatim>\<open>m_loops\<close>, \<^verbatim>\<open>m_callTree\<close>
  and \<^verbatim>\<open>m_procedureArgTree\<close> grow at the end of the list. The two pointers into
  \<^verbatim>\<open>m_procedureArgTree\<close> are indices (\<open>None\<close> is \<^verbatim>\<open>nullptr\<close>). \<open>variables\<close> holds the
  values behind the pointer table \<^verbatim>\<open>m_variables\<close>. \<open>leakWarnings\<close> records every warning
  about leaked registers that run() prints (the register count it reports), and
  \<open>frameBreaks\<close> counts the calls of \<^verbatim>\<open>m_engine->breakFrame()\<close>.
\<close>

record VirtualMachine =
  regs :: "nat \<Rightarrow> Value"
  regCount :: nat
  loops :: "Loop list"
  callTree :: "nat list"
  procedureArgTree :: "Value list list"
  procedureArgs :: "nat option"
  nextProcedureArgs :: "nat option"
  atEnd :: bool
  atomic :: bool
  variables :: "Value list"
  leakWarnings :: "nat list"
  frameBreaks :: nat

text \<open>What a script gives its virtual machines: the bytecode memory and the tables.\<close>

record Script =
  bytecode :: "nat list"
  constValues :: "Value list"
  procedures :: "nat list"
  nullValue :: Value

text \<open>
  \<open>nullValue\<close> is the default-constructed \<^verbatim>\<open>Value()\<close> that \<^verbatim>\<open>OP_NULL\<close> pushes (its
  constructor is in value.h, not under src/).

  How an execution ends, when it does not return a position: the model ran out of fuel,
  the C++ has undefined behaviour (a read outside the bytecode, a table or the register
  array, \<^verbatim>\<open>back()\<close> of an empty vector, a null pointer), or it reached an opcode this
  model does not cover.
\<close>

datatype vm_stop = OutOfFuel | Undefined | Unmodelled nat

datatype outcome =
    Dispatch VirtualMachine nat
  | Return VirtualMachine nat
  | Stop vm_stop

definition fetch :: "Script \<Rightarrow> nat \<Rightarrow> nat option" where
  "fetch S pos = (if pos < length (bytecode S) then Some (bytecode S ! pos) else None)"

definition lookup :: "'a list \<Rightarrow> nat \<Rightarrow> 'a option" where
  "lookup xs i = (if i < length xs then Some (xs ! i) else None)"

text \<open>The register macros at the top of virtualmachine.cpp.\<close>

definition READ_REG :: "VirtualMachine \<Rightarrow> nat \<Rightarrow> nat \<Rightarrow> Value option" where
  "READ_REG vm i count =
     (if count \<le> regCount vm \<and> regCount vm - count + i < MAX_REG_COUNT
      then Some (regs vm (regCount vm - count + i)) else None)"

definition READ_LAST_REG :: "VirtualMachine \<Rightarrow> Value option" where
  "READ_LAST_REG vm = READ_REG vm 0 1"

definition FREE_REGS :: "VirtualMachine \<Rightarrow> nat \<Rightarrow> VirtualMachine option" where
  "FREE_REGS vm count =
     (if count \<le> regCount vm then Some (vm\<lparr>regCount := regCount vm - count\<rparr>) else None)"

definition ADD_RET_VALUE :: "VirtualMachine \<Rightarrow> Value \<Rightarrow> VirtualMachine option" where
  "ADD_RET_VALUE vm v =
     (if regCount vm < MAX_REG_COUNT
      then Some (vm\<lparr>regs := (regs vm)(regCount vm := v), regCount := regCount vm + 1\<rparr>)
      else None)"

definition REPLACE_RET_VALUE :: "VirtualMachine \<Rightarrow> Value \<Rightarrow> nat \<Rightarrow> VirtualMachine option" where
  "REPLACE_RET_VALUE vm v offset =
     (if offset \<le> regCount vm \<and> regCount vm - offset < MAX_REG_COUNT
      then Some (vm\<lparr>regs := (regs vm)(regCount vm - offset := v)\<rparr>) else None)"

text \<open>
  The forward scans \<^verbatim>\<open>while (*pos != ...) pos += instruction_arg_count[*pos++];\<close>:
  the position of the first opcode, from \<open>pos\<close> on, that satisfies \<open>stop\<close>, stepping
  over each instruction and its inline arguments. Reading past the bytecode is undefined.
\<close>

function scan :: "(nat \<Rightarrow> bool) \<Rightarrow> nat list \<Rightarrow> nat \<Rightarrow> nat option" where
  "scan stop code pos =
     (if pos < length code then
        (if stop (code ! pos) then Some pos
         else (case instruction_arg_count (code ! pos) of
                 None \<Rightarrow> None
               | Some k \<Rightarrow> scan stop code (pos + 1 + k)))
      else None)"
  by pat_completeness auto
termination
  by (relation "measure (\<lambda>(stop, code, pos). length code - pos)") auto

declare scan.simps [simp del]

text \<open>Sequencing of steps that are undefined when a read or a write is out of range.\<close>

definition orUndefined :: "'a option \<Rightarrow> ('a \<Rightarrow> outcome) \<Rightarrow> outcome" where
  "orUndefined x f = (case x of None \<Rightarrow> Stop Undefined | Some y \<Rightarrow> f y)"

text \<open>
  \<^verbatim>\<open>do_halt\<close> (lines 171-187). A nonzero register count is reported and nothing else is
  done about it. \<open>pos\<close> is the position of the opcode being executed, here and below.
\<close>

definition do_halt :: "VirtualMachine \<Rightarrow> nat \<Rightarrow> outcome" where
  "do_halt vm pos =
     (let vm1 = (if 0 < regCount vm
                 then vm\<lparr>leakWarnings := leakWarnings vm @ [regCount vm]\<rparr> else vm)
      in
        if callTree vm1 = [] then Return (vm1\<lparr>atEnd := True\<rparr>) pos
        else if procedureArgTree vm1 = [] then Stop Undefined
        else
          let tree = butlast (procedureArgTree vm1) in
          Dispatch
            (vm1\<lparr>callTree := butlast (callTree vm1),
                 procedureArgTree := tree,
                 procedureArgs := (if tree = [] then None else Some (length tree - 1))\<rparr>)
            (last (callTree vm1)))"

definition do_const :: "Script \<Rightarrow> VirtualMachine \<Rightarrow> nat \<Rightarrow> outcome" where
  "do_const S vm pos =
     orUndefined (fetch S (pos + 1)) (\<lambda>k.
     orUndefined (lookup (constValues S) k) (\<lambda>v.
     orUndefined (ADD_RET_VALUE vm v) (\<lambda>vm'. Dispatch vm' (pos + 1))))"

definition do_null :: "Script \<Rightarrow> VirtualMachine \<Rightarrow> nat \<Rightarrow> outcome" where
  "do_null S vm pos = orUndefined (ADD_RET_VALUE vm (nullValue S)) (\<lambda>vm'. Dispatch vm' pos)"

definition do_if :: "ValueOps \<Rightarrow> Script \<Rightarrow> VirtualMachine \<Rightarrow> nat \<Rightarrow> outcome" where
  "do_if h S vm pos =
     orUndefined (READ_LAST_REG vm) (\<lambda>v.
     orUndefined (if \<not> toBool h v
                  then scan (\<lambda>op. op = OP_ELSE \<or> op = OP_ENDIF) (bytecode S) pos
                  else Some pos) (\<lambda>pos'.
     orUndefined (FREE_REGS vm 1) (\<lambda>vm'. Dispatch vm' pos')))"

text \<open>\<^verbatim>\<open>do_else\<close> scans to \<^verbatim>\<open>OP_ENDIF\<close> and falls through into \<^verbatim>\<open>do_endif\<close>.\<close>

definition do_else :: "Script \<Rightarrow> VirtualMachine \<Rightarrow> nat \<Rightarrow> outcome" where
  "do_else S vm pos =
     orUndefined (scan (\<lambda>op. op = OP_ENDIF) (bytecode S) pos) (\<lambda>pos'. Dispatch vm pos')"

definition do_endif :: "VirtualMachine \<Rightarrow> nat \<Rightarrow> outcome" where
  "do_endif vm pos = Dispatch vm pos"

definition do_forever_loop :: "VirtualMachine \<Rightarrow> nat \<Rightarrow> outcome" where
  "do_forever_loop vm pos =
     Dispatch
       (vm\<lparr>loops := loops vm @
          [\<lparr>isRepeatLoop = True, loop_start = pos, loop_index = - 1, loop_max = 0\<rparr>]\<rparr>)
       pos"

text \<open>
  \<^verbatim>\<open>do_repeat_loop\<close> (lines 220-236). \<^verbatim>\<open>loopCount\<close> is declared \<^verbatim>\<open>size_t\<close> (line 166), so
  the \<^verbatim>\<open>long\<close> that \<^verbatim>\<open>toLong()\<close> returns is converted modulo \<open>2 ^ 64\<close> (LP64), and
  \<^verbatim>\<open>loopCount <= 0\<close> is an unsigned comparison. The scan stops at the first
  \<^verbatim>\<open>OP_LOOP_END\<close> after the opcode.
\<close>

definition do_repeat_loop :: "ValueOps \<Rightarrow> Script \<Rightarrow> VirtualMachine \<Rightarrow> nat \<Rightarrow> outcome" where
  "do_repeat_loop h S vm pos =
     orUndefined (READ_LAST_REG vm) (\<lambda>v.
     let loopCount = (word_of_int (toLong h v) :: 64 word) in
     orUndefined (FREE_REGS vm 1) (\<lambda>vm1.
       if loopCount \<le> 0 then
         orUndefined (scan (\<lambda>op. op = OP_LOOP_END) (bytecode S) pos) (\<lambda>loopEnd.
           Dispatch vm1 loopEnd)
       else
         Dispatch
           (vm1\<lparr>loops := loops vm1 @
              [\<lparr>isRepeatLoop = True, loop_start = pos, loop_index = 0,
                loop_max = loopCount\<rparr>]\<rparr>)
           pos))"

text \<open>
  \<^verbatim>\<open>do_loop_end\<close> (lines 257-282) without the branch that evaluates the condition of an
  until loop in atomic mode: that branch calls run() and is part of \<open>exec\<close> below, which
  never passes such a state on to this function (its last case stands for that).
  \<^verbatim>\<open>++l.index\<close> writes the incremented counter into the loop on top of the stack before
  the comparison.
\<close>

definition do_loop_end :: "VirtualMachine \<Rightarrow> nat \<Rightarrow> outcome" where
  "do_loop_end vm pos =
     (if loops vm = [] then Stop Undefined
      else
        let l = last (loops vm) in
        if isRepeatLoop l then
          let l' = (if loop_index l = - 1 then l else l\<lparr>loop_index := loop_index l + 1\<rparr>);
              again = (loop_index l = - 1 \<or> loop_index l' < loop_max l');
              pos' = (if again then loop_start l else pos);
              vm' = (if again then vm\<lparr>loops := butlast (loops vm) @ [l']\<rparr>
                     else vm\<lparr>loops := butlast (loops vm)\<rparr>)
          in
            if \<not> atomic vm' then Return (vm'\<lparr>frameBreaks := frameBreaks vm' + 1\<rparr>) pos'
            else Dispatch vm' pos'
        else
          if \<not> atomic vm then Return (vm\<lparr>frameBreaks := frameBreaks vm + 1\<rparr>) (pos - 1)
          else Stop (Unmodelled OP_LOOP_END))"

definition do_add :: "ValueOps \<Rightarrow> VirtualMachine \<Rightarrow> nat \<Rightarrow> outcome" where
  "do_add h vm pos =
     orUndefined (READ_REG vm 0 2) (\<lambda>a.
     orUndefined (READ_REG vm 1 2) (\<lambda>b.
     orUndefined (REPLACE_RET_VALUE vm (add h a b) 2) (\<lambda>vm1.
     orUndefined (FREE_REGS vm1 1) (\<lambda>vm2. Dispatch vm2 pos))))"

text \<open>The opcodes that replace the top register by a function of it.\<close>

definition unary :: "(Value \<Rightarrow> Value) \<Rightarrow> VirtualMachine \<Rightarrow> nat \<Rightarrow> outcome" where
  "unary f vm pos =
     orUndefined (READ_REG vm 0 1) (\<lambda>v.
     orUndefined (REPLACE_RET_VALUE vm (f v) 1) (\<lambda>vm'. Dispatch vm' pos))"

definition binary_bool :: "(bool \<Rightarrow> bool \<Rightarrow> bool) \<Rightarrow> ValueOps \<Rightarrow> VirtualMachine \<Rightarrow> nat \<Rightarrow> outcome" where
  "binary_bool f h vm pos =
     orUndefined (READ_REG vm 0 2) (\<lambda>a.
     orUndefined (READ_REG vm 1 2) (\<lambda>b.
     orUndefined (REPLACE_RET_VALUE vm (Bool (f (toBool h a) (toBool h b))) 2) (\<lambda>vm1.
     orUndefined (FREE_REGS vm1 1) (\<lambda>vm2. Dispatch vm2 pos))))"

definition do_set_var :: "Script \<Rightarrow> VirtualMachine \<Rightarrow> nat \<Rightarrow> outcome" where
  "do_set_var S vm pos =
     orUndefined (fetch S (pos + 1)) (\<lambda>i.
     orUndefined (READ_LAST_REG vm) (\<lambda>v.
       if i < length (variables vm) then
         orUndefined (FREE_REGS (vm\<lparr>variables := (variables vm)[i := v]\<rparr>) 1) (\<lambda>vm'.
           Dispatch vm' (pos + 1))
       else Stop Undefined))"

definition do_read_var :: "Script \<Rightarrow> VirtualMachine \<Rightarrow> nat \<Rightarrow> outcome" where
  "do_read_var S vm pos =
     orUndefined (fetch S (pos + 1)) (\<lambda>i.
     orUndefined (lookup (variables vm) i) (\<lambda>v.
     orUndefined (ADD_RET_VALUE vm v) (\<lambda>vm'. Dispatch vm' (pos + 1))))"

definition do_change_var :: "ValueOps \<Rightarrow> Script \<Rightarrow> VirtualMachine \<Rightarrow> nat \<Rightarrow> outcome" where
  "do_change_var h S vm pos =
     orUndefined (fetch S (pos + 1)) (\<lambda>i.
     orUndefined (lookup (variables vm) i) (\<lambda>old.
     orUndefined (READ_LAST_REG vm) (\<lambda>v.
     orUndefined (FREE_REGS (vm\<lparr>variables := (variables vm)[i := add h old v]\<rparr>) 1) (\<lambda>vm'.
       Dispatch vm' (pos + 1)))))"

definition do_init_procedure :: "VirtualMachine \<Rightarrow> nat \<Rightarrow> outcome" where
  "do_init_procedure vm pos =
     (let tree = procedureArgTree vm @ [[]] in
      Dispatch
        (vm\<lparr>procedureArgTree := tree,
            procedureArgs := (if 2 \<le> length tree then Some (length tree - 2)
                              else procedureArgs vm),
            nextProcedureArgs := Some (length tree - 1)\<rparr>)
        pos)"

definition do_call_procedure :: "Script \<Rightarrow> VirtualMachine \<Rightarrow> nat \<Rightarrow> outcome" where
  "do_call_procedure S vm pos =
     orUndefined (fetch S (pos + 1)) (\<lambda>p.
     orUndefined (lookup (procedures S) p) (\<lambda>target.
       Dispatch
         (vm\<lparr>callTree := callTree vm @ [pos + 1],
             procedureArgs := nextProcedureArgs vm,
             nextProcedureArgs := None\<rparr>)
         target))"

definition do_add_arg :: "VirtualMachine \<Rightarrow> nat \<Rightarrow> outcome" where
  "do_add_arg vm pos =
     orUndefined (nextProcedureArgs vm) (\<lambda>f.
     orUndefined (lookup (procedureArgTree vm) f) (\<lambda>args.
     orUndefined (READ_LAST_REG vm) (\<lambda>v.
     orUndefined
       (FREE_REGS (vm\<lparr>procedureArgTree := (procedureArgTree vm)[f := args @ [v]]\<rparr>) 1)
       (\<lambda>vm'. Dispatch vm' pos))))"

definition do_read_arg :: "Script \<Rightarrow> VirtualMachine \<Rightarrow> nat \<Rightarrow> outcome" where
  "do_read_arg S vm pos =
     orUndefined (fetch S (pos + 1)) (\<lambda>i.
     orUndefined (procedureArgs vm) (\<lambda>f.
     orUndefined (lookup (procedureArgTree vm) f) (\<lambda>args.
     orUndefined (lookup args i) (\<lambda>v.
     orUndefined (ADD_RET_VALUE vm v) (\<lambda>vm'. Dispatch vm' (pos + 1))))))"

definition do_break_atomic :: "VirtualMachine \<Rightarrow> nat \<Rightarrow> outcome" where
  "do_break_atomic vm pos = Dispatch (vm\<lparr>atomic := False\<rparr>) pos"

text \<open>
  One dispatched opcode, for every opcode that does not call run(). Index 0 of the
  dispatch table is a null label and an index past the table lies outside it: jumping
  there is undefined. The opcodes between that this model does not cover (printing,
  double arithmetic other than the two trigonometric opcodes the claims name, comparisons,
  lists, strings and \<^verbatim>\<open>EXEC\<close>, whose Value, List and block functions are not under src/)
  stop the model with \<open>Unmodelled\<close>.
\<close>

definition step :: "ValueOps \<Rightarrow> Script \<Rightarrow> VirtualMachine \<Rightarrow> nat \<Rightarrow> nat \<Rightarrow> outcome" where
  "step h S vm pos op =
     (if op = 0 \<or> 58 < op then Stop Undefined
      else if op = OP_HALT then do_halt vm pos
      else if op = OP_CONST then do_const S vm pos
      else if op = OP_NULL then do_null S vm pos
      else if op = OP_IF then do_if h S vm pos
      else if op = OP_ELSE then do_else S vm pos
      else if op = OP_ENDIF then do_endif vm pos
      else if op = OP_FOREVER_LOOP then do_forever_loop vm pos
      else if op = OP_REPEAT_LOOP then do_repeat_loop h S vm pos
      else if op = OP_BEGIN_UNTIL_LOOP then Return vm pos
      else if op = OP_LOOP_END then do_loop_end vm pos
      else if op = OP_ADD then do_add h vm pos
      else if op = OP_TAN then unary (do_tan h) vm pos
      else if op = OP_ATAN then unary (do_atan h) vm pos
      else if op = OP_AND then binary_bool (\<and>) h vm pos
      else if op = OP_OR then binary_bool (\<or>) h vm pos
      else if op = OP_NOT then unary (\<lambda>v. Bool (\<not> toBool h v)) vm pos
      else if op = OP_SET_VAR then do_set_var S vm pos
      else if op = OP_CHANGE_VAR then do_change_var h S vm pos
      else if op = OP_READ_VAR then do_read_var S vm pos
      else if op = OP_INIT_PROCEDURE then do_init_procedure vm pos
      else if op = OP_CALL_PROCEDURE then do_call_procedure S vm pos
      else if op = OP_ADD_ARG then do_add_arg vm pos
      else if op = OP_READ_ARG then do_read_arg S vm pos
      else if op = OP_BREAK_ATOMIC then do_break_atomic vm pos
      else Stop (Unmodelled op))"

text \<open>
  The two places where a handler calls run() on the condition of an until loop:
  \<^verbatim>\<open>do_until_loop\<close> (lines 238-252), and \<^verbatim>\<open>do_loop_end\<close> for an until loop in atomic mode
  (lines 274-280). \<open>nested\<close> gives the position the nested run starts from, and \<open>resume\<close>
  is the rest of the handler, given the position \<open>loopStart\<close> the nested run returned.
\<close>

datatype pending = UntilEnter | UntilAgain

definition nested :: "VirtualMachine \<Rightarrow> nat \<Rightarrow> nat \<Rightarrow> (pending \<times> nat) option" where
  "nested vm pos op =
     (if op = OP_UNTIL_LOOP then Some (UntilEnter, pos)
      else if op = OP_LOOP_END \<and> loops vm \<noteq> [] \<and> \<not> isRepeatLoop (last (loops vm))
              \<and> atomic vm
      then Some (UntilAgain, loop_start (last (loops vm)))
      else None)"

definition resume ::
  "pending \<Rightarrow> ValueOps \<Rightarrow> Script \<Rightarrow> VirtualMachine \<Rightarrow> nat \<Rightarrow> nat \<Rightarrow> outcome" where
  "resume k h S vm pos loopStart =
     orUndefined (READ_LAST_REG vm) (\<lambda>v.
       case k of
         UntilEnter \<Rightarrow>
           if \<not> toBool h v then
             orUndefined
               (FREE_REGS
                  (vm\<lparr>loops := loops vm @
                     [\<lparr>isRepeatLoop = False, loop_start = pos, loop_index = 0,
                       loop_max = 0\<rparr>]\<rparr>) 1)
               (\<lambda>vm'. Dispatch vm' loopStart)
           else
             orUndefined (scan (\<lambda>op. op = OP_LOOP_END) (bytecode S) loopStart) (\<lambda>pos'.
             orUndefined (FREE_REGS vm 1) (\<lambda>vm'. Dispatch vm' pos'))
       | UntilAgain \<Rightarrow>
           if \<not> toBool h v then
             orUndefined (FREE_REGS vm 1) (\<lambda>vm'. Dispatch vm' loopStart)
           else if loops vm = [] then Stop Undefined
           else
             orUndefined (FREE_REGS (vm\<lparr>loops := butlast (loops vm)\<rparr>) 1) (\<lambda>vm'.
               Dispatch vm' pos))"

text \<open>
  The dispatch loop: \<^verbatim>\<open>DISPATCH()\<close> is \<^verbatim>\<open>goto *dispatch_table[*++pos]\<close>. \<open>exec n\<close> performs
  at most \<open>n\<close> dispatches, nested runs included, and says \<open>OutOfFuel\<close> when they do not
  suffice. \<open>run\<close> is \<^verbatim>\<open>VirtualMachine::run(unsigned int *pos)\<close> (lines 101-169): it clears
  \<^verbatim>\<open>m_atEnd\<close>, sets \<^verbatim>\<open>m_atomic\<close> and dispatches; a nested run does the same.
\<close>

fun exec :: "nat \<Rightarrow> ValueOps \<Rightarrow> Script \<Rightarrow> VirtualMachine \<Rightarrow> nat
              \<Rightarrow> vm_stop + (VirtualMachine \<times> nat)" where
  "exec 0 h S vm pos0 = Inl OutOfFuel"
| "exec (Suc n) h S vm pos0 =
     (case fetch S (pos0 + 1) of
        None \<Rightarrow> Inl Undefined
      | Some op \<Rightarrow>
          (case nested vm (pos0 + 1) op of
             Some (k, from) \<Rightarrow>
               (case exec n h S (vm\<lparr>atEnd := False, atomic := True\<rparr>) from of
                  Inl e \<Rightarrow> Inl e
                | Inr (vm1, loopStart) \<Rightarrow>
                    (case resume k h S vm1 (pos0 + 1) loopStart of
                       Dispatch vm2 pos2 \<Rightarrow> exec n h S vm2 pos2
                     | Return vm2 pos2 \<Rightarrow> Inr (vm2, pos2)
                     | Stop e \<Rightarrow> Inl e))
           | None \<Rightarrow>
               (case step h S vm (pos0 + 1) op of
                  Dispatch vm2 pos2 \<Rightarrow> exec n h S vm2 pos2
                | Return vm2 pos2 \<Rightarrow> Inr (vm2, pos2)
                | Stop e \<Rightarrow> Inl e)))"

definition run :: "nat \<Rightarrow> ValueOps \<Rightarrow> Script \<Rightarrow> VirtualMachine \<Rightarrow> nat
                    \<Rightarrow> vm_stop + (VirtualMachine \<times> nat)" where
  "run n h S vm pos = exec n h S (vm\<lparr>atEnd := False, atomic := True\<rparr>) pos"

text \<open>
  A freshly constructed VirtualMachine (lines 33-42): every register holds a
  default-constructed Value, nothing is on any stack. \<open>vars\<close> are the current values of the
  variables the script refers to.
\<close>

definition newVirtualMachine :: "Value \<Rightarrow> Value list \<Rightarrow> VirtualMachine" where
  "newVirtualMachine d vars =
     \<lparr>regs = (\<lambda>i. d), regCount = 0, loops = [], callTree = [], procedureArgTree = [],
      procedureArgs = None, nextProcedureArgs = None, atEnd = False, atomic = True,
      variables = vars, leakWarnings = [], frameBreaks = 0\<rparr>"

text \<open>The script of \<^verbatim>\<open>REPEAT count { CHANGE_VAR v by 1 }\<close>, with optional \<^verbatim>\<open>BREAK_ATOMIC\<close> first.\<close>

definition repeat_script :: "int \<Rightarrow> Script" where
  "repeat_script count =
     \<lparr>bytecode = [0, OP_CONST, 0, OP_REPEAT_LOOP, OP_CONST, 1, OP_CHANGE_VAR, 0,
                  OP_LOOP_END, OP_HALT],
      constValues = [Integer count, Integer 1],
      procedures = [],
      nullValue = Integer 0\<rparr>"

text \<open>
  A \<open>ValueOps\<close> for scripts that compute on integers only and branch on no value: none
  of its functions is ever applied on such a run, so their results are immaterial.
\<close>

definition integerOps :: ValueOps where
  "integerOps =
     \<lparr>parseNumber = (\<lambda>s. None), stringToLong = (\<lambda>s. 0), doubleToString = (\<lambda>x. []),
      otherToBool = (\<lambda>v. False), addDouble = (\<lambda>x y. 0), tanDegrees = (\<lambda>x. 0), atanDegrees = (\<lambda>x. 0)\<rparr>"

text \<open>\<^verbatim>\<open>CONST 7; HALT\<close>: a script that leaves one register behind.\<close>

definition leak_script :: Script where
  "leak_script =
     \<lparr>bytecode = [0, OP_CONST, 0, OP_HALT], constValues = [Integer 7], procedures = [],
      nullValue = Integer 0\<rparr>"

text \<open>\<^verbatim>\<open>BREAK_ATOMIC; REPEAT (-1) { CHANGE_VAR v by 1 }\<close>.\<close>

definition negative_repeat_script :: Script where
  "negative_repeat_script =
     \<lparr>bytecode = [0, OP_BREAK_ATOMIC, OP_CONST, 0, OP_REPEAT_LOOP, OP_CONST, 1,
                  OP_CHANGE_VAR, 0, OP_LOOP_END, OP_HALT],
      constValues = [Integer (- 1), Integer 1],
      procedures = [],
      nullValue = Integer 0\<rparr>"

text \<open>\<^verbatim>\<open>REPEAT 0 { REPEAT 1 { }; CHANGE_VAR v by 1 }\<close>.\<close>

definition nested_repeat_script :: Script where
  "nested_repeat_script =
     \<lparr>bytecode = [0, OP_CONST, 0, OP_REPEAT_LOOP,
                  OP_CONST, 1, OP_REPEAT_LOOP, OP_LOOP_END,
                  OP_CONST, 1, OP_CHANGE_VAR, 0,
                  OP_LOOP_END, OP_HALT],
      constValues = [Integer 0, Integer 1],
      procedures = [],
      nullValue = Integer 0\<rparr>"

text \<open>\<^verbatim>\<open>CONST v; ATAN; HALT\<close>.\<close>

definition atan_script :: "Value \<Rightarrow> Script" where
  "atan_script v =
     \<lparr>bytecode = [0, OP_CONST, 0, OP_ATAN, OP_HALT], constValues = [v], procedures = [],
      nullValue = Integer 0\<rparr>"

section \<open>The engine\<close>

text \<open>
  Targets, scripts and virtual machines are C++ objects that the engine handles through
  pointers; the model names each by a number. What the engine reads of a target
  (\<^verbatim>\<open>isStage()\<close>, \<^verbatim>\<open>cloneSprite()\<close>, \<^verbatim>\<open>layerOrder()\<close>) is kept in the engine record, as a
  heap would hold it. Of a thread the engine reads \<^verbatim>\<open>target()\<close>, \<^verbatim>\<open>script()\<close> and
  \<^verbatim>\<open>atEnd()\<close>; \<open>vm_id\<close> is the identity of the VirtualMachine object, which is what
  comparing two \<^verbatim>\<open>shared_ptr\<close>s compares.
\<close>

record Thread =
  vm_id :: nat
  vm_target :: nat
  vm_script :: nat
  vm_atEnd :: bool

datatype HatType = GreenFlag | BroadcastReceived | BackdropChanged | CloneInit | KeyPressed

text \<open>
  What the engine does to its objects, for the record of the order in which it does it:
  a VirtualMachine was constructed (its identity, script and target), \<^verbatim>\<open>kill()\<close> was
  called on a VirtualMachine, a clone was inserted into \<^verbatim>\<open>m_clones\<close>, a target was
  appended to \<^verbatim>\<open>m_executableTargets\<close>.
\<close>

datatype Event =
    ThreadCreated nat nat nat
  | ThreadKilled nat
  | CloneInserted nat
  | TargetAppended nat

text \<open>
  The members of \<^verbatim>\<open>Engine\<close> that the modelled functions use. \<^verbatim>\<open>m_clones\<close> is an unordered
  set: here a list without repetitions. The five hat maps are total, since
  \<^verbatim>\<open>operator[]\<close> gives an empty vector for a target without entry. \<open>topBlockFields\<close>
  stands for the reverse lookup of a script in \<^verbatim>\<open>m_scripts\<close> followed by
  \<^verbatim>\<open>findFieldById(id)->value().toString()\<close> on the top block found (\<open>None\<close>: the script is
  not in \<^verbatim>\<open>m_scripts\<close>; an inner \<open>None\<close>: the block has no such field). \<open>nextVm\<close> is the
  identity the next constructed VirtualMachine gets. \<open>events\<close> is no member of the
  class: it is the record of the events above, the latest last, that the functions below
  write as they go, so that the order of their effects can be stated.
\<close>

record Engine =
  executableTargets :: "nat list"
  clones :: "nat list"
  threads :: "Thread list"
  cloneLimit :: int
  keyMap :: "string \<Rightarrow> bool option"
  greenFlagHats :: "nat \<Rightarrow> nat list"
  broadcastHats :: "nat \<Rightarrow> nat list"
  backdropChangeHats :: "nat \<Rightarrow> nat list"
  cloneInitHats :: "nat \<Rightarrow> nat list"
  whenKeyPressedHats :: "nat \<Rightarrow> nat list"
  topBlockFields :: "nat \<Rightarrow> (int \<Rightarrow> string option) option"
  isStage :: "nat \<Rightarrow> bool"
  cloneSprite :: "nat \<Rightarrow> nat option"
  layerOrder :: "nat \<Rightarrow> int"
  nextVm :: nat
  events :: "Event list"

text \<open>
  A failed \<^verbatim>\<open>assert\<close> and undefined behaviour of the standard library (an invalid range
  given to \<^verbatim>\<open>std::rotate\<close>) end a call with an error.
\<close>

datatype engine_error = AssertionFailed | InvalidRange

text \<open>\<^verbatim>\<open>m_hatRestartExistingThreads\<close> (engine.cpp, lines 31-37).\<close>

fun hatRestartExistingThreads :: "HatType \<Rightarrow> bool" where
  "hatRestartExistingThreads GreenFlag = True"
| "hatRestartExistingThreads BroadcastReceived = True"
| "hatRestartExistingThreads BackdropChanged = True"
| "hatRestartExistingThreads CloneInit = False"
| "hatRestartExistingThreads KeyPressed = False"

text \<open>
  Modelled from the spec: \<^verbatim>\<open>Sprite::isClone()\<close> (sprite.cpp is not under src/): a sprite is
  a clone when its clone root pointer is not null.
\<close>

definition isClone :: "Engine \<Rightarrow> nat \<Rightarrow> bool" where
  "isClone e t = (cloneSprite e t \<noteq> None)"

text \<open>\<^verbatim>\<open>Engine::getHats\<close> (lines 1090-1124): the hats of a clone are those of its root.\<close>

definition getHats :: "Engine \<Rightarrow> nat \<Rightarrow> HatType \<Rightarrow> nat list" where
  "getHats e target type =
     (let target' = (if \<not> isStage e target \<and> isClone e target
                     then (case cloneSprite e target of
                             Some rootSprite \<Rightarrow> rootSprite
                           | None \<Rightarrow> target)
                     else target)
      in case type of
           GreenFlag \<Rightarrow> greenFlagHats e target'
         | BroadcastReceived \<Rightarrow> broadcastHats e target'
         | BackdropChanged \<Rightarrow> backdropChangeHats e target'
         | CloneInit \<Rightarrow> cloneInitHats e target'
         | KeyPressed \<Rightarrow> whenKeyPressedHats e target')"

text \<open>
  Modelled from the spec: \<^verbatim>\<open>Script::start(target)\<close> (script.cpp is not under src/), the
  "factory for VM instances bound to a target": a new VirtualMachine for the script and
  the target, not at its end. The construction is recorded.
\<close>

definition start :: "Engine \<Rightarrow> nat \<Rightarrow> nat \<Rightarrow> Thread \<times> Engine" where
  "start e script target =
     (\<lparr>vm_id = nextVm e, vm_target = target, vm_script = script, vm_atEnd = False\<rparr>,
      e\<lparr>nextVm := nextVm e + 1,
        events := events e @ [ThreadCreated (nextVm e) script target]\<rparr>)"

text \<open>\<^verbatim>\<open>Engine::pushThread\<close> (lines 1206-1225), for the non-null block and target it gets here.\<close>

definition pushThread :: "Engine \<Rightarrow> nat \<Rightarrow> nat \<Rightarrow> Thread \<times> Engine" where
  "pushThread e script target =
     (let (vm, e1) = start e script target
      in (vm, e1\<lparr>threads := threads e1 @ [vm]\<rparr>))"

text \<open>
  \<^verbatim>\<open>Engine::stopThread\<close> (lines 1227-1232), for the non-null thread it gets: it calls
  \<^verbatim>\<open>kill()\<close> on the thread and leaves the thread list as it is. \<^verbatim>\<open>VirtualMachine::kill\<close> is
  not under src/; the call is recorded.
\<close>

definition stopThread :: "Engine \<Rightarrow> Thread \<Rightarrow> Engine" where
  "stopThread e thread = e\<lparr>events := events e @ [ThreadKilled (vm_id thread)]\<rparr>"

text \<open>The index \<^verbatim>\<open>std::find\<close> stops at: the first element that satisfies \<open>P\<close>.\<close>

fun find_index :: "('a \<Rightarrow> bool) \<Rightarrow> 'a list \<Rightarrow> nat option" where
  "find_index P [] = None"
| "find_index P (x # xs) =
     (if P x then Some 0 else map_option Suc (find_index P xs))"

text \<open>
  \<^verbatim>\<open>Engine::restartThread\<close> (lines 1234-1248). The new thread is written over the old one
  in the list; neither \<^verbatim>\<open>stopThread\<close> nor \<^verbatim>\<open>kill()\<close> is called on the old one. When the
  thread is not in the list, the old thread (not the new one) is appended and returned.
\<close>

definition restartThread :: "Engine \<Rightarrow> Thread \<Rightarrow> Thread \<times> Engine" where
  "restartThread e thread =
     (let (newThread, e1) = start e (vm_script thread) (vm_target thread)
      in case find_index (\<lambda>x. vm_id x = vm_id thread) (threads e1) of
           Some i \<Rightarrow> (newThread, e1\<lparr>threads := (threads e1)[i := newThread]\<rparr>)
         | None \<Rightarrow> (thread, e1\<lparr>threads := threads e1 @ [thread]\<rparr>))"

text \<open>
  The loop over \<^verbatim>\<open>optMatchFields\<close> in the callback of \<^verbatim>\<open>startHats\<close> (lines 1287-1295):
  \<open>Inr False\<close> is the early return on a field mismatch.
\<close>

fun matchFields ::
  "(int \<Rightarrow> string option) \<Rightarrow> (int \<times> string) list \<Rightarrow> engine_error + bool" where
  "matchFields fm [] = Inr True"
| "matchFields fm ((fieldId, fieldValue) # rest) =
     (if \<not> - 1 < fieldId then Inl AssertionFailed
      else case fm fieldId of
             None \<Rightarrow> Inl AssertionFailed
           | Some v \<Rightarrow> (if v \<noteq> fieldValue then Inr False else matchFields fm rest))"

definition fieldsMatch :: "Engine \<Rightarrow> (int \<times> string) list \<Rightarrow> nat \<Rightarrow> engine_error + bool" where
  "fieldsMatch e optMatchFields script =
     (case topBlockFields e script of
        None \<Rightarrow> Inl AssertionFailed
      | Some fm \<Rightarrow> matchFields fm optMatchFields)"

text \<open>
  The callback that \<^verbatim>\<open>startHats\<close> passes to \<^verbatim>\<open>allScriptsByOpcodeDo\<close> (lines 1280-1317),
  on the pair of \<^verbatim>\<open>newThreads\<close> and the engine.
\<close>

fun startHat ::
  "HatType \<Rightarrow> (int \<times> string) list \<Rightarrow> nat \<Rightarrow> nat \<Rightarrow> Thread list \<times> Engine
     \<Rightarrow> engine_error + Thread list \<times> Engine" where
  "startHat hatType optMatchFields script target (newThreads, e) =
     (case fieldsMatch e optMatchFields script of
        Inl err \<Rightarrow> Inl err
      | Inr False \<Rightarrow> Inr (newThreads, e)
      | Inr True \<Rightarrow>
          (if hatRestartExistingThreads hatType then
             (case List.find (\<lambda>th. vm_target th = target \<and> vm_script th = script)
                     (threads e) of
                Some thread \<Rightarrow>
                  (case restartThread e thread of
                     (vm, e1) \<Rightarrow> Inr (newThreads @ [vm], e1))
              | None \<Rightarrow>
                  (case pushThread e script target of
                     (vm, e1) \<Rightarrow> Inr (newThreads @ [vm], e1)))
           else
             (case List.find (\<lambda>th. vm_target th = target \<and> vm_script th = script
                                    \<and> \<not> vm_atEnd th) (threads e) of
                Some thread \<Rightarrow> Inr (newThreads, e)
              | None \<Rightarrow>
                  (case pushThread e script target of
                     (vm, e1) \<Rightarrow> Inr (newThreads @ [vm], e1)))))"

declare startHat.simps [simp del]

text \<open>
  \<^verbatim>\<open>Engine::allScriptsByOpcodeDo\<close> (lines 1250-1271), with the callback of startHats: the
  inner loop over the scripts of one target, the outer loop over the targets (given
  here in the order they are visited), and the choice of the targets, which are
  copied before the loops start.
\<close>

fun forScripts ::
  "HatType \<Rightarrow> (int \<times> string) list \<Rightarrow> nat list \<Rightarrow> nat \<Rightarrow> Thread list \<times> Engine
     \<Rightarrow> engine_error + Thread list \<times> Engine" where
  "forScripts hatType fs [] target acc = Inr acc"
| "forScripts hatType fs (script # scripts) target acc =
     (case startHat hatType fs script target acc of
        Inl err \<Rightarrow> Inl err
      | Inr acc' \<Rightarrow> forScripts hatType fs scripts target acc')"

fun forTargets ::
  "HatType \<Rightarrow> (int \<times> string) list \<Rightarrow> nat list \<Rightarrow> Thread list \<times> Engine
     \<Rightarrow> engine_error + Thread list \<times> Engine" where
  "forTargets hatType fs [] acc = Inr acc"
| "forTargets hatType fs (target # targets) acc =
     (case forScripts hatType fs (getHats (snd acc) target hatType) target acc of
        Inl err \<Rightarrow> Inl err
      | Inr acc' \<Rightarrow> forTargets hatType fs targets acc')"

definition allScriptsByOpcodeDo ::
  "HatType \<Rightarrow> (int \<times> string) list \<Rightarrow> nat option \<Rightarrow> Thread list \<times> Engine
     \<Rightarrow> engine_error + Thread list \<times> Engine" where
  "allScriptsByOpcodeDo hatType fs optTarget acc =
     (let targets = (case optTarget of Some t \<Rightarrow> [t] | None \<Rightarrow> executableTargets (snd acc))
      in forTargets hatType fs (rev targets) acc)"

text \<open>\<^verbatim>\<open>Engine::startHats\<close> (lines 1273-1327): the new threads and the engine afterwards.\<close>

definition startHats ::
  "Engine \<Rightarrow> HatType \<Rightarrow> (int \<times> string) list \<Rightarrow> nat option
     \<Rightarrow> engine_error + Thread list \<times> Engine" where
  "startHats e hatType optMatchFields optTarget =
     allScriptsByOpcodeDo hatType optMatchFields optTarget ([], e)"

text \<open>
  \<^verbatim>\<open>Engine::initClone\<close> (lines 234-257), in a build with assertions. The argument is a
  \<^verbatim>\<open>shared_ptr\<close> and may be null. The two insertions of the last two lines are recorded.
\<close>

definition initClone :: "Engine \<Rightarrow> nat option \<Rightarrow> engine_error + Engine" where
  "initClone e clone =
     (case clone of
        None \<Rightarrow> Inr e
      | Some c \<Rightarrow>
          if 0 \<le> cloneLimit e \<and> cloneLimit e \<le> int (length (clones e)) then Inr e
          else
            (case cloneSprite e c of
               None \<Rightarrow> Inl AssertionFailed
             | Some rootSprite \<Rightarrow>
                 if List.find (\<lambda>th. vm_target th = c \<and> \<not> vm_atEnd th) (threads e) \<noteq> None
                 then Inl AssertionFailed
                 else
                   (case startHats e CloneInit [] (Some c) of
                      Inl err \<Rightarrow> Inl err
                    | Inr (newThreads, e1) \<Rightarrow>
                        if c \<in> set (clones e1) \<or> c \<in> set (executableTargets e1)
                        then Inl AssertionFailed
                        else Inr (e1\<lparr>clones := c # clones e1,
                                      executableTargets := executableTargets e1 @ [c],
                                      events := events e1 @ [CloneInserted c,
                                                             TargetAppended c]\<rparr>))))"

text \<open>\<^verbatim>\<open>Engine::deinitClone\<close> (lines 259-263).\<close>

definition deinitClone :: "Engine \<Rightarrow> nat \<Rightarrow> Engine" where
  "deinitClone e c =
     e\<lparr>clones := removeAll c (clones e),
       executableTargets := removeAll c (executableTargets e)\<rparr>"

text \<open>\<^verbatim>\<open>Engine::setCloneLimit\<close> (lines 549-552) and \<^verbatim>\<open>Engine::cloneCount\<close> (lines 554-557).\<close>

definition setCloneLimit :: "Engine \<Rightarrow> int \<Rightarrow> Engine" where
  "setCloneLimit e limit = e\<lparr>cloneLimit := (if limit < 0 then - 1 else limit)\<rparr>"

definition cloneCount :: "Engine \<Rightarrow> int" where
  "cloneCount e = int (length (clones e))"

text \<open>
  \<^verbatim>\<open>Engine::setKeyState(const KeyEvent &, bool)\<close> (lines 469-478). \<open>KEY_OPTION\<close> is the
  field id \<^verbatim>\<open>EventBlocks::Fields::KEY_OPTION\<close>, declared in eventblocks.h, which is not
  under src/; it is a parameter.
\<close>

definition setKeyState :: "int \<Rightarrow> Engine \<Rightarrow> string \<Rightarrow> bool \<Rightarrow> engine_error + Engine" where
  "setKeyState KEY_OPTION e name pressed =
     (let e1 = e\<lparr>keyMap := (keyMap e)(name \<mapsto> pressed)\<rparr> in
      if pressed then
        (case startHats e1 KeyPressed [(KEY_OPTION, name)] None of
           Inl err \<Rightarrow> Inl err
         | Inr (n1, e2) \<Rightarrow>
             (case startHats e2 KeyPressed [(KEY_OPTION, ''any'')] None of
                Inl err \<Rightarrow> Inl err
              | Inr (n2, e3) \<Rightarrow> Inr e3))
      else Inr e1)"

text \<open>
  \<^verbatim>\<open>std::rotate(first, middle, last)\<close> on the positions of a vector: the elements of
  \<open>[middle, last)\<close> come first, those of \<open>[first, middle)\<close> after them. The ranges must be
  valid.
\<close>

definition std_rotate :: "nat \<Rightarrow> nat \<Rightarrow> nat \<Rightarrow> 'a list \<Rightarrow> 'a list option" where
  "std_rotate first middle lst xs =
     (if first \<le> middle \<and> middle \<le> lst \<and> lst \<le> length xs
      then Some (take first xs @ drop middle (take lst xs) @ drop first (take middle xs)
                 @ drop lst xs)
      else None)"

text \<open>\<^verbatim>\<open>Engine::updateSpriteLayerOrder\<close> (lines 1126-1132).\<close>

definition updateSpriteLayerOrder :: "Engine \<Rightarrow> engine_error + Engine" where
  "updateSpriteLayerOrder e =
     (if executableTargets e \<noteq> [] \<and> \<not> isStage e (executableTargets e ! 0)
      then Inl AssertionFailed
      else Inr (e\<lparr>layerOrder :=
                    fold (\<lambda>i lo. lo(executableTargets e ! i := int i))
                      [1 ..< length (executableTargets e)] (layerOrder e)\<rparr>))"

text \<open>
  \<^verbatim>\<open>Engine::moveSpriteToFront\<close> and \<^verbatim>\<open>Engine::moveSpriteToBack\<close> (lines 828-852). The
  argument is a pointer and may be null.
\<close>

definition moveSpriteToFront :: "Engine \<Rightarrow> nat option \<Rightarrow> engine_error + Engine" where
  "moveSpriteToFront e sprite =
     (case sprite of
        None \<Rightarrow> Inr e
      | Some s \<Rightarrow>
          if length (executableTargets e) \<le> 2 then Inr e
          else
            (case find_index (\<lambda>t. t = s) (executableTargets e) of
               None \<Rightarrow> Inr e
             | Some it \<Rightarrow>
                 (case std_rotate it (it + 1) (length (executableTargets e))
                         (executableTargets e) of
                    None \<Rightarrow> Inl InvalidRange
                  | Some ts \<Rightarrow> updateSpriteLayerOrder (e\<lparr>executableTargets := ts\<rparr>))))"

definition moveSpriteToBack :: "Engine \<Rightarrow> nat option \<Rightarrow> engine_error + Engine" where
  "moveSpriteToBack e sprite =
     (case sprite of
        None \<Rightarrow> Inr e
      | Some s \<Rightarrow>
          if length (executableTargets e) \<le> 2 then Inr e
          else
            (case find_index (\<lambda>t. t = s) (executableTargets e) of
               None \<Rightarrow> Inr e
             | Some it \<Rightarrow>
                 (case std_rotate 1 it (it + 1) (executableTargets e) of
                    None \<Rightarrow> Inl InvalidRange
                  | Some ts \<Rightarrow> updateSpriteLayerOrder (e\<lparr>executableTargets := ts\<rparr>))))"

text \<open>
  The order in which \<^verbatim>\<open>allScriptsByOpcodeDo\<close> calls its callback, as a list of
  (script, target) pairs: the targets last to first, the scripts of each in the order they
  were registered.
\<close>

definition visitOrder :: "Engine \<Rightarrow> HatType \<Rightarrow> nat option \<Rightarrow> (nat \<times> nat) list" where
  "visitOrder e hatType optTarget =
     concat (map (\<lambda>t. map (\<lambda>s. (s, t)) (getHats e t hatType))
               (rev (case optTarget of Some t \<Rightarrow> [t] | None \<Rightarrow> executableTargets e)))"

text \<open>The (script, target) pair a thread runs.\<close>

definition threadKey :: "Thread \<Rightarrow> nat \<times> nat" where
  "threadKey th = (vm_script th, vm_target th)"

text \<open>
  After a layer mutation every entry of the executable targets but the first has its
  index as layer order.
\<close>

definition layerOrderMatchesIndex :: "Engine \<Rightarrow> bool" where
  "layerOrderMatchesIndex e =
     (map (layerOrder e) (tl (executableTargets e))
        = map int [1 ..< length (executableTargets e)])"

text \<open>
  An example project. Target 0 is the stage, 1 and 2 are sprites, 3, 4 and 5 are clones
  of sprite 1 that are not initialised yet. Scripts 10 and 11 are green flag hats of the
  stage and of sprite 1, script 12 is a clone init hat of sprite 1, scripts 13 and 14
  are key hats of sprite 2 (key "space") and of sprite 1 (key "any"); field 0 of a key
  hat is its key option. The clone limit is 2.
\<close>

definition demoEngine :: Engine where
  "demoEngine =
     \<lparr>executableTargets = [0, 1, 2],
      clones = [],
      threads = [],
      cloneLimit = 2,
      keyMap = (\<lambda>k. None),
      greenFlagHats = (\<lambda>t. if t = 0 then [10] else if t = 1 then [11] else []),
      broadcastHats = (\<lambda>t. []),
      backdropChangeHats = (\<lambda>t. []),
      cloneInitHats = (\<lambda>t. if t = 1 then [12] else []),
      whenKeyPressedHats = (\<lambda>t. if t = 2 then [13] else if t = 1 then [14] else []),
      topBlockFields =
        (\<lambda>s. if s = 13 then Some (\<lambda>f. if f = 0 then Some ''space'' else None)
             else if s = 14 then Some (\<lambda>f. if f = 0 then Some ''any'' else None)
             else if s \<in> {10, 11, 12} then Some (\<lambda>f. None)
             else None),
      isStage = (\<lambda>t. t = 0),
      cloneSprite = (\<lambda>t. if t \<in> {3, 4, 5} then Some 1 else None),
      layerOrder = (\<lambda>t. int t),
      nextVm = 0,
      events = []\<rparr>"

text \<open>The example project with one thread, of the stage's green flag script, running.\<close>

definition demoEngineRunning :: Engine where
  "demoEngineRunning =
     demoEngine\<lparr>threads := [\<lparr>vm_id = 0, vm_target = 0, vm_script = 10, vm_atEnd = False\<rparr>],
                nextVm := 1\<rparr>"

text \<open>
  The calls of the callback as one loop over the pairs of \<open>visitOrder\<close>; the lemma
  \<open>startHats_visitAll\<close> below shows that \<open>startHats\<close> is this loop.
\<close>

fun visitAll ::
  "HatType \<Rightarrow> (int \<times> string) list \<Rightarrow> (nat \<times> nat) list \<Rightarrow> Thread list \<times> Engine
     \<Rightarrow> engine_error + Thread list \<times> Engine" where
  "visitAll hatType fs [] acc = Inr acc"
| "visitAll hatType fs ((script, target) # rest) acc =
     (case startHat hatType fs script target acc of
        Inl err \<Rightarrow> Inl err
      | Inr acc' \<Rightarrow> visitAll hatType fs rest acc')"

text \<open>The thread that \<open>start\<close> constructs in the engine state \<open>e\<close>.\<close>

definition freshThread :: "Engine \<Rightarrow> nat \<Rightarrow> nat \<Rightarrow> Thread" where
  "freshThread e script target =
     \<lparr>vm_id = nextVm e, vm_target = target, vm_script = script, vm_atEnd = False\<rparr>"

text \<open>
  The threads in the list are different objects, all constructed before the next one:
  what pointers to live objects guarantee in the C++.
\<close>

definition distinctThreads :: "Engine \<Rightarrow> bool" where
  "distinctThreads e =
     (distinct (map vm_id (threads e)) \<and> list_all (\<lambda>th. vm_id th < nextVm e) (threads e))"

text \<open>The record of the construction of a thread.\<close>

definition created :: "Thread \<Rightarrow> Event" where
  "created th = ThreadCreated (vm_id th) (vm_script th) (vm_target th)"

text \<open>
  The slot of the thread list that holds the first thread of the pair \<open>k\<close>, and the
  thread list after a new thread was put in the slot of the first thread of its pair, or
  at the end when its pair has no thread.
\<close>

definition slotOf :: "nat \<times> nat \<Rightarrow> Thread list \<Rightarrow> nat option" where
  "slotOf k ts = find_index (\<lambda>th. threadKey th = k) ts"

definition place :: "Thread \<Rightarrow> Thread list \<Rightarrow> Thread list" where
  "place th ts = (case slotOf (threadKey th) ts of Some i \<Rightarrow> ts[i := th] | None \<Rightarrow> ts @ [th])"

text \<open>
  Two engine states that differ in their threads, and in the record of what was done, at
  most.
\<close>

definition sameProject :: "Engine \<Rightarrow> Engine \<Rightarrow> bool" where
  "sameProject e e' =
     (e' = e\<lparr>threads := threads e', nextVm := nextVm e', events := events e'\<rparr>)"

text \<open>Some thread that has not finished runs the pair \<open>k\<close>.\<close>

definition running :: "Engine \<Rightarrow> nat \<times> nat \<Rightarrow> bool" where
  "running e k = list_ex (\<lambda>th. threadKey th = k \<and> \<not> vm_atEnd th) (threads e)"

text \<open>The top block of the pair's script has every requested field value.\<close>

definition matching :: "Engine \<Rightarrow> (int \<times> string) list \<Rightarrow> nat \<times> nat \<Rightarrow> bool" where
  "matching e fs p = (fieldsMatch e fs (fst p) = Inr True)"

text \<open>
  The layout of the executable targets that the layer functions rely on: the stage comes
  first and no target is listed twice.
\<close>

definition stageFirst :: "Engine \<Rightarrow> bool" where
  "stageFirst e =
     (executableTargets e \<noteq> [] \<and> isStage e (executableTargets e ! 0)
      \<and> distinct (executableTargets e))"

text \<open>The engine operations modelled here, as values, and what each does.\<close>

datatype EngineOp =
    InitClone "nat option"
  | DeinitClone nat
  | StartHats HatType "(int \<times> string) list" "nat option"
  | SetKeyState string bool
  | MoveSpriteToFront "nat option"
  | MoveSpriteToBack "nat option"
  | SetCloneLimit int

fun perform :: "int \<Rightarrow> Engine \<Rightarrow> EngineOp \<Rightarrow> engine_error + Engine" where
  "perform K e (InitClone c) = initClone e c"
| "perform K e (DeinitClone c) = Inr (deinitClone e c)"
| "perform K e (StartHats ty fs opt) = map_sum id snd (startHats e ty fs opt)"
| "perform K e (SetKeyState k p) = setKeyState K e k p"
| "perform K e (MoveSpriteToFront s) = moveSpriteToFront e s"
| "perform K e (MoveSpriteToBack s) = moveSpriteToBack e s"
| "perform K e (SetCloneLimit l) = Inr (setCloneLimit e l)"

fun isSetCloneLimit :: "EngineOp \<Rightarrow> bool" where
  "isSetCloneLimit (SetCloneLimit l) = True"
| "isSetCloneLimit op = False"

text \<open>Runs of the example project that the theorems below are checked on.\<close>

definition greenFlagRunning :: "engine_error + Thread list \<times> Engine" where
  "greenFlagRunning = startHats demoEngineRunning GreenFlag [] None"

definition greenFlagAgain :: "engine_error + Thread list \<times> Engine" where
  "greenFlagAgain = startHats (snd (projr greenFlagRunning)) GreenFlag [] None"

definition cloneOnce :: "engine_error + Engine" where
  "cloneOnce = initClone demoEngine (Some 3)"

definition cloneTwice :: "engine_error + Engine" where
  "cloneTwice = initClone (projr cloneOnce) (Some 4)"

definition cloneThrice :: "engine_error + Engine" where
  "cloneThrice = initClone (projr cloneTwice) (Some 5)"

definition cloneHats :: "engine_error + Thread list \<times> Engine" where
  "cloneHats = startHats demoEngine CloneInit [] (Some 3)"

definition keyOnce :: "engine_error + Engine" where
  "keyOnce = setKeyState 0 demoEngine ''space'' True"

text \<open>
  The example project while the space key is held down and no script runs (the key
  scripts started by the first press have finished and were removed).
\<close>

definition heldEngine :: Engine where
  "heldEngine = demoEngine\<lparr>keyMap := (\<lambda>k. if k = ''space'' then Some True else None)\<rparr>"

definition keyHeld :: "engine_error + Engine" where
  "keyHeld = setKeyState 0 heldEngine ''space'' True"

text \<open>A project of the stage and one sprite whose layer order was loaded as 7.\<close>

definition twoTargets :: Engine where
  "twoTargets =
     demoEngine\<lparr>executableTargets := [0, 1], layerOrder := (\<lambda>t. if t = 1 then 7 else 0)\<rparr>"

definition twoTargetsFront :: "engine_error + Engine" where
  "twoTargetsFront = moveSpriteToFront twoTargets (Some 1)"

section \<open>Properties of the virtual machine\<close>

text \<open>
  Claim C1, as the code has it. When the dispatch loop reaches \<^verbatim>\<open>HALT\<close> with an empty call
  stack, run() returns the position of the \<^verbatim>\<open>HALT\<close> with \<^verbatim>\<open>atEnd\<close> set. The register count
  is what it was before the \<^verbatim>\<open>HALT\<close>: when it is not zero a warning with the count is
  printed and nothing else changes, so it is zero afterwards exactly when the script left
  no register behind.
\<close>

theorem halt_sets_atEnd_keeps_regCount:
  assumes "fetch S (pos + 1) = Some OP_HALT" and "callTree vm = []"
  shows "exec (Suc n) h S vm pos =
           Inr (vm\<lparr>atEnd := True,
                   leakWarnings := (if 0 < regCount vm then leakWarnings vm @ [regCount vm]
                                    else leakWarnings vm)\<rparr>, pos + 1)"
  using assms by (simp add: nested_def step_def do_halt_def Let_def)

theorem halt_sets_atEnd_keeps_regCount_witness:
  "fetch leak_script (2 + 1) = Some OP_HALT
   \<and> callTree ((newVirtualMachine (Integer 0) [])\<lparr>regCount := 1\<rparr>) = []
   \<and> atEnd (fst (projr (exec (Suc 0) integerOps leak_script
                 ((newVirtualMachine (Integer 0) [])\<lparr>regCount := 1\<rparr>) 2)))
   \<and> regCount (fst (projr (exec (Suc 0) integerOps leak_script
                 ((newVirtualMachine (Integer 0) [])\<lparr>regCount := 1\<rparr>) 2))) = 1
   \<and> leakWarnings (fst (projr (exec (Suc 0) integerOps leak_script
                 ((newVirtualMachine (Integer 0) [])\<lparr>regCount := 1\<rparr>) 2))) = [1]"
proof -
  have f: "fetch leak_script (2 + 1) = Some OP_HALT"
    by (simp add: fetch_def leak_script_def)
  have c: "callTree ((newVirtualMachine (Integer 0) [])\<lparr>regCount := 1\<rparr>) = []"
    by (simp add: newVirtualMachine_def)
  show ?thesis
    using f c halt_sets_atEnd_keeps_regCount [OF f c, of 0 integerOps]
    by (simp add: newVirtualMachine_def)
qed

text \<open>
  Claim C1 as stated fails: the run of \<^verbatim>\<open>CONST 7; HALT\<close> on a fresh machine returns at
  \<^verbatim>\<open>HALT\<close> with an empty call stack and \<^verbatim>\<open>atEnd\<close> set, and its register count is 1.
\<close>

theorem halt_regCount_counterexample:
  "\<not> isl (run 10 integerOps leak_script (newVirtualMachine (Integer 0) []) 0)
   \<and> atEnd (fst (projr (run 10 integerOps leak_script (newVirtualMachine (Integer 0) []) 0)))
   \<and> callTree (fst (projr (run 10 integerOps leak_script (newVirtualMachine (Integer 0) []) 0)))
       = []
   \<and> regCount (fst (projr (run 10 integerOps leak_script (newVirtualMachine (Integer 0) []) 0)))
       \<noteq> 0"
  by code_simp

text \<open>
  Claim C2 at two inputs. With the count \<open>-1\<close> (and \<^verbatim>\<open>BREAK_ATOMIC\<close>, so that the run
  returns after one pass) the body has run: the run returns with the variable at 1 and the
  thread not at its end. With the count 0 and a loop nested in the body, the scan stops at
  the inner \<^verbatim>\<open>LOOP_END\<close>, the rest of the body runs and the outer \<^verbatim>\<open>LOOP_END\<close> finds the
  loop stack empty, which is undefined behaviour.
\<close>

theorem repeat_nonpositive_count_runs_body:
  "variables (fst (projr (run 100 integerOps negative_repeat_script
       (newVirtualMachine (Integer 0) [Integer 0]) 0))) = [Integer 1]
   \<and> \<not> isl (run 100 integerOps negative_repeat_script
       (newVirtualMachine (Integer 0) [Integer 0]) 0)
   \<and> atEnd (fst (projr (run 100 integerOps negative_repeat_script
       (newVirtualMachine (Integer 0) [Integer 0]) 0))) = False
   \<and> isl (run 100 integerOps nested_repeat_script
       (newVirtualMachine (Integer 0) [Integer 0]) 0)
   \<and> projl (run 100 integerOps nested_repeat_script
       (newVirtualMachine (Integer 0) [Integer 0]) 0) = Undefined"
  by code_simp

text \<open>
  The scenario of claim C2 does hold: \<^verbatim>\<open>REPEAT 5 { CHANGE_VAR v by 1 }\<close> with \<open>v = 0\<close> and no
  \<^verbatim>\<open>BREAK_ATOMIC\<close> ends, after one run, at \<^verbatim>\<open>HALT\<close> with \<open>v = 5\<close>, and a count of 0 skips the
  body.
\<close>

lemma repeat_five_scenario:
  "\<not> isl (run 100 integerOps (repeat_script 5) (newVirtualMachine (Integer 0) [Integer 0]) 0)
   \<and> variables (fst (projr (run 100 integerOps (repeat_script 5)
         (newVirtualMachine (Integer 0) [Integer 0]) 0))) = [Integer 5]
   \<and> atEnd (fst (projr (run 100 integerOps (repeat_script 5)
         (newVirtualMachine (Integer 0) [Integer 0]) 0)))
   \<and> regCount (fst (projr (run 100 integerOps (repeat_script 5)
         (newVirtualMachine (Integer 0) [Integer 0]) 0))) = 0"
  by code_simp

lemma repeat_zero_skips_body:
  "\<not> isl (run 100 integerOps (repeat_script 0) (newVirtualMachine (Integer 0) [Integer 0]) 0)
   \<and> variables (fst (projr (run 100 integerOps (repeat_script 0)
         (newVirtualMachine (Integer 0) [Integer 0]) 0))) = [Integer 0]
   \<and> atEnd (fst (projr (run 100 integerOps (repeat_script 0)
         (newVirtualMachine (Integer 0) [Integer 0]) 0)))"
  by code_simp

text \<open>
  Claim C7 at \<open>-90\<close> and at \<open>-270\<close>: \<^verbatim>\<open>toLong() % 360\<close> is \<open>-90\<close> and \<open>-270\<close> there, neither
  of which is 90 or 270, so the operand is replaced by the double that \<^verbatim>\<open>std::tan\<close>
  computes and not by an infinity.
\<close>

theorem tan_negative_operand_not_special:
  "do_tan h (Integer (- 90)) = Double (tanDegrees h (- 90))
   \<and> do_tan h (Integer (- 270)) = Double (tanDegrees h (- 270))
   \<and> do_tan h (Integer (- 90)) \<noteq> Special NegativeInfinity
   \<and> do_tan h (Integer (- 270)) \<noteq> Special Infinity"
  by (simp add: do_tan_def isInfinity_def isNegativeInfinity_def toLong_def toDouble_def
      signed_modulo_int_def Let_def)

text \<open>For an operand that is not negative the special cases of \<^verbatim>\<open>do_tan\<close> are as claimed.\<close>

lemma tan_nonnegative_operand:
  assumes "0 \<le> toLong h v" and "\<not> isInfinity v" and "\<not> isNegativeInfinity v"
  shows "(toLong h v mod 360 = 90 \<longrightarrow> do_tan h v = Special Infinity)
       \<and> (toLong h v mod 360 = 270 \<longrightarrow> do_tan h v = Special NegativeInfinity)"
  using assms by (auto simp: do_tan_def signed_modulo_int_def Let_def sgn_if)

lemma tan_nonnegative_operand_witness:
  "0 \<le> toLong integerOps (Integer 450) \<and> toLong integerOps (Integer 450) mod 360 = 90
   \<and> do_tan integerOps (Integer 450) = Special Infinity
   \<and> do_tan integerOps (Integer 270) = Special NegativeInfinity"
  using tan_nonnegative_operand [of integerOps "Integer 450"]
    tan_nonnegative_operand [of integerOps "Integer 270"]
  by (simp add: toLong_def isInfinity_def isNegativeInfinity_def)

lemma toDouble_toNumber: "toNumber h v = Some d \<Longrightarrow> toDouble h v = d"
  by (auto simp: toNumber_def toDouble_def split: Value.splits SpecialValue.splits)

lemma toNumber_None:
  "toNumber h v = None \<Longrightarrow> v = Special NaN \<or> (\<exists>s. v = String s \<and> parseNumber h s = None)"
  by (auto simp: toNumber_def split: Value.splits SpecialValue.splits)

lemma toNumber_not_nan: "toNumber h v \<noteq> Some NotANumber"
  by (auto simp: toNumber_def split: Value.splits SpecialValue.splits)

lemma toNumber_Integer [simp]: "toNumber h (Integer n) = Some (Finite (of_int n))"
  by (simp add: toNumber_def)

lemma nan_greater_than_one: "value_greater h (Special NaN) (Integer 1)"
  by (simp add: value_greater_def value_less_def toNumber_def toString_def toLower_def
      natToString.simps)

lemma do_atan_number:
  assumes "toNumber h v = Some (Finite x)"
  shows "do_atan h v = (if x < - 1 \<or> 1 < x then Special NaN else Double (atanDegrees h x))"
  using assms toDouble_toNumber [OF assms]
  by (simp add: do_atan_def value_less_def value_greater_def)

lemma do_atan_special:
  assumes "toNumber h v = Some PosInf \<or> toNumber h v = Some NegInf \<or> v = Special NaN"
  shows "do_atan h v = Special NaN"
  using assms nan_greater_than_one [of h]
  by (auto simp: do_atan_def value_less_def value_greater_def)

lemma do_atan_result:
  assumes "do_atan h v \<noteq> Special NaN"
  shows "\<exists>x. toDouble h v = Finite x \<and> - 1 \<le> x \<and> x \<le> 1 \<and> do_atan h v = Double (atanDegrees h x)"
proof (cases "toNumber h v")
  case None
  with toNumber_None [OF None] assms do_atan_special [of h v] obtain s where
    s: "v = String s" "parseNumber h s = None" by auto
  then have "toDouble h v = Finite 0" by (simp add: toDouble_def)
  with assms show ?thesis
    by (auto simp: do_atan_def split: if_splits)
next
  case (Some d)
  show ?thesis
  proof (cases d)
    case (Finite x)
    with Some do_atan_number [of h v x] toDouble_toNumber [of h v d] assms show ?thesis
      by (auto split: if_splits)
  next
    case NotANumber
    with Some toNumber_not_nan [of h v] show ?thesis by simp
  qed (use Some assms do_atan_special [of h v] in auto)
qed



text \<open>
  The opcode on whole runs of \<^verbatim>\<open>CONST v; ATAN; HALT\<close>: above 1, below \<open>-1\<close>, at the
  infinities and at NaN the register holds NaN afterwards; at 1 and inside the interval
  it holds the arctangent.
\<close>

lemma atan_runs:
  "regs (fst (projr (run 10 integerOps (atan_script (Integer 2))
      (newVirtualMachine (Integer 0) []) 0))) 0 = Special NaN
   \<and> regs (fst (projr (run 10 integerOps (atan_script (Double (- 3 / 2)))
      (newVirtualMachine (Integer 0) []) 0))) 0 = Special NaN
   \<and> regs (fst (projr (run 10 integerOps (atan_script (Special Infinity))
      (newVirtualMachine (Integer 0) []) 0))) 0 = Special NaN
   \<and> regs (fst (projr (run 10 integerOps (atan_script (Special NaN))
      (newVirtualMachine (Integer 0) []) 0))) 0 = Special NaN
   \<and> regs (fst (projr (run 10 integerOps (atan_script (Integer 1))
      (newVirtualMachine (Integer 0) []) 0))) 0 = Double (atanDegrees integerOps 1)
   \<and> regs (fst (projr (run 10 integerOps (atan_script (Double (1 / 2)))
      (newVirtualMachine (Integer 0) []) 0))) 0 = Double (atanDegrees integerOps (1 / 2))"
  by code_simp

section \<open>Lemmas about starting hats\<close>

subsection \<open>What a pass leaves alone\<close>

lemma sameProject_refl [simp]: "sameProject e e"
  by (simp add: sameProject_def)

lemma sameProject_trans: "sameProject a b \<Longrightarrow> sameProject b c \<Longrightarrow> sameProject a c"
  unfolding sameProject_def
  by (metis (no_types, lifting) Engine.surjective Engine.update_convs(3) Engine.update_convs(15)
      Engine.update_convs(16))

lemma sameProject_update [simp]:
  "sameProject e (e\<lparr>nextVm := n, threads := ts, events := ev\<rparr>)"
  by (simp add: sameProject_def)

lemma sameProject_fields:
  assumes "sameProject e e'"
  shows "executableTargets e' = executableTargets e" "clones e' = clones e"
    "cloneLimit e' = cloneLimit e" "keyMap e' = keyMap e"
    "getHats e' = getHats e" "fieldsMatch e' = fieldsMatch e"
    "isStage e' = isStage e" "cloneSprite e' = cloneSprite e" "layerOrder e' = layerOrder e"
    "visitOrder e' = visitOrder e"
proof -
  have eq: "e' = e\<lparr>threads := threads e', nextVm := nextVm e', events := events e'\<rparr>"
    using assms by (simp add: sameProject_def)
  show "executableTargets e' = executableTargets e" by (subst eq) simp
  show "clones e' = clones e" by (subst eq) simp
  show "cloneLimit e' = cloneLimit e" by (subst eq) simp
  show "keyMap e' = keyMap e" by (subst eq) simp
  show "isStage e' = isStage e" by (subst eq) simp
  show "cloneSprite e' = cloneSprite e" by (subst eq) simp
  show "layerOrder e' = layerOrder e" by (subst eq) simp
  have h: "greenFlagHats e' = greenFlagHats e" "broadcastHats e' = broadcastHats e"
    "backdropChangeHats e' = backdropChangeHats e" "cloneInitHats e' = cloneInitHats e"
    "whenKeyPressedHats e' = whenKeyPressedHats e" "topBlockFields e' = topBlockFields e"
    "isStage e' = isStage e" "cloneSprite e' = cloneSprite e"
    "executableTargets e' = executableTargets e"
    by (subst eq, simp)+
  show g: "getHats e' = getHats e"
    unfolding getHats_def isClone_def fun_eq_iff h by simp
  show "fieldsMatch e' = fieldsMatch e"
    unfolding fieldsMatch_def fun_eq_iff h by simp
  show "visitOrder e' = visitOrder e"
    unfolding visitOrder_def fun_eq_iff g h by simp
qed

lemma keyMap_update_same:
  "visitOrder (e\<lparr>keyMap := m\<rparr>) = visitOrder e"
  "matching (e\<lparr>keyMap := m\<rparr>) = matching e"
  "running (e\<lparr>keyMap := m\<rparr>) = running e"
proof -
  have h: "greenFlagHats (e\<lparr>keyMap := m\<rparr>) = greenFlagHats e"
    "broadcastHats (e\<lparr>keyMap := m\<rparr>) = broadcastHats e"
    "backdropChangeHats (e\<lparr>keyMap := m\<rparr>) = backdropChangeHats e"
    "cloneInitHats (e\<lparr>keyMap := m\<rparr>) = cloneInitHats e"
    "whenKeyPressedHats (e\<lparr>keyMap := m\<rparr>) = whenKeyPressedHats e"
    "topBlockFields (e\<lparr>keyMap := m\<rparr>) = topBlockFields e"
    "isStage (e\<lparr>keyMap := m\<rparr>) = isStage e" "cloneSprite (e\<lparr>keyMap := m\<rparr>) = cloneSprite e"
    "executableTargets (e\<lparr>keyMap := m\<rparr>) = executableTargets e"
    "threads (e\<lparr>keyMap := m\<rparr>) = threads e"
    by simp_all
  show "visitOrder (e\<lparr>keyMap := m\<rparr>) = visitOrder e"
    unfolding visitOrder_def getHats_def isClone_def fun_eq_iff h by simp
  show "matching (e\<lparr>keyMap := m\<rparr>) = matching e"
    unfolding matching_def fieldsMatch_def fun_eq_iff h by simp
  show "running (e\<lparr>keyMap := m\<rparr>) = running e"
    unfolding running_def fun_eq_iff h by simp
qed

subsection \<open>One call of the callback\<close>

lemma find_index_Some:
  "find_index P xs = Some i \<Longrightarrow> i < length xs \<and> P (xs ! i)"
  by (induction xs arbitrary: i) (auto split: if_splits)

lemma find_index_by_id:
  assumes "th \<in> set xs" and "distinct (map vm_id xs)"
  shows "\<exists>i. find_index (\<lambda>x. vm_id x = vm_id th) xs = Some i \<and> i < length xs \<and> xs ! i = th"
  using assms
proof (induction xs)
  case Nil
  then show ?case by simp
next
  case (Cons x xs)
  show ?case
  proof (cases "vm_id x = vm_id th")
    case True
    with Cons.prems have "x = th" by (auto simp: image_iff)
    with True show ?thesis by simp
  next
    case False
    with Cons.prems have "th \<in> set xs" "distinct (map vm_id xs)" by auto
    from Cons.IH [OF this] obtain i where
      "find_index (\<lambda>x. vm_id x = vm_id th) xs = Some i" "i < length xs" "xs ! i = th"
      by blast
    with False show ?thesis by simp
  qed
qed

lemma find_Some_mem: "List.find P xs = Some x \<Longrightarrow> x \<in> set xs \<and> P x"
  by (auto simp: find_Some_iff)

lemma find_first:
  "List.find P xs = Some x \<Longrightarrow> \<exists>i. find_index P xs = Some i \<and> xs ! i = x"
  by (induction xs) (auto split: if_splits)

lemma key_pred:
  "(\<lambda>th. vm_target th = t \<and> vm_script th = s) = (\<lambda>th. threadKey th = (s, t))"
  by (auto simp: threadKey_def fun_eq_iff)

lemma slotOf_None: "slotOf k ts = None \<longleftrightarrow> k \<notin> set (map threadKey ts)"
  unfolding slotOf_def by (induction ts) auto

lemma pushThread_eq:
  "pushThread e s t =
     (freshThread e s t, e\<lparr>nextVm := nextVm e + 1, threads := threads e @ [freshThread e s t],
                    events := events e @ [created (freshThread e s t)]\<rparr>)"
  by (simp add: pushThread_def start_def freshThread_def created_def)

lemma restartThread_eq:
  assumes "th \<in> set (threads e)" and "distinctThreads e"
  shows "\<exists>i. i < length (threads e) \<and> threads e ! i = th \<and>
           restartThread e th =
             (freshThread e (vm_script th) (vm_target th),
              e\<lparr>nextVm := nextVm e + 1,
                threads := (threads e)[i := freshThread e (vm_script th) (vm_target th)],
                events := events e @ [created (freshThread e (vm_script th) (vm_target th))]\<rparr>)"
proof -
  from assms obtain i where
    i: "find_index (\<lambda>x. vm_id x = vm_id th) (threads e) = Some i" "i < length (threads e)"
       "threads e ! i = th"
    using find_index_by_id [of th "threads e"] by (auto simp: distinctThreads_def)
  then show ?thesis
    by (auto simp: restartThread_def start_def freshThread_def created_def)
qed

lemma distinctThreads_push:
  assumes "distinctThreads e"
  shows "distinctThreads (e\<lparr>nextVm := nextVm e + 1, threads := threads e @ [freshThread e s t],
                    events := events e @ [created (freshThread e s t)]\<rparr>)"
  using assms
  by (auto simp: distinctThreads_def freshThread_def list_all_iff less_Suc_eq)

lemma distinctThreads_replace:
  assumes "distinctThreads e" and "i < length (threads e)"
  shows "distinctThreads (e\<lparr>nextVm := nextVm e + 1, threads := (threads e)[i := freshThread e s t],
                    events := events e @ [created (freshThread e s t)]\<rparr>)"
proof -
  have fresh: "nextVm e \<notin> set (map vm_id (threads e))"
    using assms(1) by (auto simp: distinctThreads_def list_all_iff)
  have "distinct ((map vm_id (threads e))[i := nextVm e])"
    using assms fresh by (simp add: distinctThreads_def distinct_list_update)
  moreover have "list_all (\<lambda>th. vm_id th < nextVm e + 1) ((threads e)[i := freshThread e s t])"
    using assms
    by (auto simp: distinctThreads_def list_all_iff freshThread_def less_Suc_eq
        dest!: set_update_subset_insert [THEN subsetD])
  ultimately show ?thesis
    by (simp add: distinctThreads_def map_update freshThread_def)
qed

lemma threadKey_fresh [simp]: "threadKey (freshThread e s t) = (s, t)"
  by (simp add: threadKey_def freshThread_def)

lemma find_key_None:
  "List.find (\<lambda>th. vm_target th = t \<and> vm_script th = s) xs = None
     \<longleftrightarrow> (s, t) \<notin> set (map threadKey xs)"
  by (auto simp: find_None_iff threadKey_def image_iff)

lemma find_running_None:
  "List.find (\<lambda>th. vm_target th = t \<and> vm_script th = s \<and> \<not> vm_atEnd th) (threads e) = None
     \<longleftrightarrow> \<not> running e (s, t)"
  by (auto simp: find_None_iff running_def list_ex_iff threadKey_def)

lemma startHat_cases_norestart:
  assumes "startHat ty fs s t (new, e) = Inr (new', e')"
    and "\<not> hatRestartExistingThreads ty"
  shows "(new' = new \<and> e' = e \<and> fieldsMatch e fs s = Inr False)
       \<or> (new' = new \<and> e' = e \<and> fieldsMatch e fs s = Inr True \<and> running e (s, t))
       \<or> (new' = new @ [freshThread e s t]
          \<and> e' = e\<lparr>nextVm := nextVm e + 1, threads := threads e @ [freshThread e s t],
                    events := events e @ [created (freshThread e s t)]\<rparr>
          \<and> fieldsMatch e fs s = Inr True \<and> \<not> running e (s, t))"
proof (cases "List.find (\<lambda>th. vm_target th = t \<and> vm_script th = s \<and> \<not> vm_atEnd th) (threads e)")
  case None
  then have "\<not> running e (s, t)" by (simp add: find_running_None)
  with None assms show ?thesis
    by (auto simp: startHat.simps pushThread_eq split: sum.splits bool.splits)
next
  case (Some th)
  then have "running e (s, t)" using find_running_None [of t s e] by simp
  with Some assms show ?thesis
    by (auto simp: startHat.simps split: sum.splits bool.splits)
qed

lemma startHat_cases_restart:
  assumes "startHat ty fs s t (new, e) = Inr (new', e')" and "distinctThreads e"
    and "hatRestartExistingThreads ty"
  shows "(new' = new \<and> e' = e \<and> fieldsMatch e fs s = Inr False)
       \<or> (new' = new @ [freshThread e s t]
          \<and> e' = e\<lparr>nextVm := nextVm e + 1, threads := threads e @ [freshThread e s t],
                    events := events e @ [created (freshThread e s t)]\<rparr>
          \<and> fieldsMatch e fs s = Inr True \<and> (s, t) \<notin> set (map threadKey (threads e)))
       \<or> (new' = new @ [freshThread e s t]
          \<and> fieldsMatch e fs s = Inr True
          \<and> (\<exists>i < length (threads e). threadKey (threads e ! i) = (s, t)
               \<and> slotOf (s, t) (threads e) = Some i
               \<and> e' = e\<lparr>nextVm := nextVm e + 1,
                         threads := (threads e)[i := freshThread e s t],
                         events := events e @ [created (freshThread e s t)]\<rparr>))"
proof (cases "fieldsMatch e fs s")
  case (Inl err)
  with assms show ?thesis by (simp add: startHat.simps)
next
  case (Inr m)
  show ?thesis
  proof (cases m)
    case False
    with Inr assms show ?thesis by (simp add: startHat.simps)
  next
    case True
    show ?thesis
    proof (cases "List.find (\<lambda>th. vm_target th = t \<and> vm_script th = s) (threads e)")
      case None
      then have "(s, t) \<notin> set (map threadKey (threads e))"
        by (simp add: find_key_None)
      with None True Inr assms show ?thesis
        by (simp add: startHat.simps pushThread_eq)
    next
      case (Some th)
      then have th: "th \<in> set (threads e)" "vm_target th = t" "vm_script th = s"
        using find_Some_mem [OF Some] by auto
      from restartThread_eq [OF th(1) assms(2)] obtain i where
        i: "i < length (threads e)" "threads e ! i = th"
           "restartThread e th =
             (freshThread e s t,
              e\<lparr>nextVm := nextVm e + 1, threads := (threads e)[i := freshThread e s t],
                    events := events e @ [created (freshThread e s t)]\<rparr>)"
        using th by auto
      from find_first [OF Some] obtain i0 where
        i0: "slotOf (s, t) (threads e) = Some i0" "threads e ! i0 = th"
        by (auto simp: key_pred slotOf_def)
      have "i0 < length (threads e)"
        using i0(1) find_index_Some [of _ "threads e" i0] by (simp add: slotOf_def)
      with i(1,2) i0(2) assms(2) have "i = i0"
        by (metis distinctThreads_def length_map nth_eq_iff_index_eq nth_map)
      with i0 have "slotOf (s, t) (threads e) = Some i" by simp
      with i True Inr Some assms th show ?thesis
        by (auto simp: startHat.simps threadKey_def)
    qed
  qed
qed

lemma startHat_cases:
  assumes "startHat ty fs s t (new, e) = Inr (new', e')"
    and "hatRestartExistingThreads ty \<Longrightarrow> distinctThreads e"
  shows "(new' = new \<and> e' = e)
       \<or> (new' = new @ [freshThread e s t]
          \<and> e' = e\<lparr>nextVm := nextVm e + 1, threads := threads e @ [freshThread e s t],
                    events := events e @ [created (freshThread e s t)]\<rparr>)
       \<or> (hatRestartExistingThreads ty \<and> new' = new @ [freshThread e s t]
          \<and> (\<exists>i < length (threads e). threadKey (threads e ! i) = (s, t)
               \<and> e' = e\<lparr>nextVm := nextVm e + 1,
                         threads := (threads e)[i := freshThread e s t],
                         events := events e @ [created (freshThread e s t)]\<rparr>))"
proof (cases "hatRestartExistingThreads ty")
  case True
  with startHat_cases_restart [OF assms(1) assms(2) True] show ?thesis by blast
next
  case False
  with startHat_cases_norestart [OF assms(1) False] show ?thesis by blast
qed

lemma startHat_total:
  assumes "\<not> isl (fieldsMatch e fs s)"
  shows "\<exists>acc'. startHat ty fs s t (new, e) = Inr acc'"
  using assms
  by (cases "fieldsMatch e fs s")
     (auto simp: startHat.simps split: bool.splits option.splits prod.splits)

lemma startHat_frame:
  assumes "startHat ty fs s t (new, e) = Inr (new', e')"
  shows "sameProject e e'"
  using assms
  by (auto simp: startHat.simps pushThread_def restartThread_def start_def sameProject_def
      split: sum.splits bool.splits if_splits option.splits)

lemma startHat_step:
  assumes "startHat ty fs s t (new, e) = Inr (new', e')" and "distinctThreads e"
  shows "distinctThreads e'"
    and "\<exists>N. new' = new @ N \<and> subseq (map threadKey N) [(s, t)]
             \<and> (\<not> hatRestartExistingThreads ty \<longrightarrow> threads e' = threads e @ N)"
    and "\<exists>K. map threadKey (threads e') = map threadKey (threads e) @ K \<and> subseq K [(s, t)]"
proof -
  note c = startHat_cases [OF assms(1), OF assms(2)]
  show "distinctThreads e'"
    using c assms(2) distinctThreads_push [OF assms(2), of s t]
      distinctThreads_replace [OF assms(2), of _ s t] by auto
  show "\<exists>N. new' = new @ N \<and> subseq (map threadKey N) [(s, t)]
             \<and> (\<not> hatRestartExistingThreads ty \<longrightarrow> threads e' = threads e @ N)"
    using c by auto
  show "\<exists>K. map threadKey (threads e') = map threadKey (threads e) @ K \<and> subseq K [(s, t)]"
  proof -
    have upd: "map threadKey ((threads e)[i := freshThread e s t]) = map threadKey (threads e)"
      if "i < length (threads e)" "threadKey (threads e ! i) = (s, t)" for i
      using that by (simp add: map_update list_update_same_conv)
    show ?thesis
      using c by (auto simp: upd)
  qed
qed

subsection \<open>A whole pass\<close>

lemma visitAll_frame:
  assumes "visitAll ty fs ps acc = Inr acc'"
  shows "sameProject (snd acc) (snd acc')"
  using assms
proof (induction ps arbitrary: acc)
  case Nil
  then show ?case by simp
next
  case (Cons p ps)
  obtain s t where p: "p = (s, t)" by (cases p)
  obtain new e where acc: "acc = (new, e)" by (cases acc)
  from Cons.prems p obtain acc1 where
    1: "startHat ty fs s t acc = Inr acc1" and 2: "visitAll ty fs ps acc1 = Inr acc'"
    by (auto split: sum.splits)
  from 1 acc have "sameProject e (snd acc1)"
    using startHat_frame [of ty fs s t new e "fst acc1" "snd acc1"] by simp
  with Cons.IH [OF 2] acc show ?case
    by (auto intro: sameProject_trans)
qed

lemma visitAll_append:
  "visitAll ty fs (ps @ qs) acc =
     (case visitAll ty fs ps acc of Inl err \<Rightarrow> Inl err | Inr acc' \<Rightarrow> visitAll ty fs qs acc')"
  by (induction ps arbitrary: acc) (auto split: sum.splits)

lemma forScripts_visitAll:
  "forScripts ty fs scripts t acc = visitAll ty fs (map (\<lambda>s. (s, t)) scripts) acc"
  by (induction scripts arbitrary: acc) (auto split: sum.splits)

lemma forTargets_visitAll:
  "forTargets ty fs ts acc =
     visitAll ty fs (concat (map (\<lambda>t. map (\<lambda>s. (s, t)) (getHats (snd acc) t ty)) ts)) acc"
proof (induction ts arbitrary: acc)
  case Nil
  then show ?case by simp
next
  case (Cons t ts)
  show ?case
  proof (cases "visitAll ty fs (map (\<lambda>s. (s, t)) (getHats (snd acc) t ty)) acc")
    case (Inl err)
    then show ?thesis by (simp add: forScripts_visitAll visitAll_append)
  next
    case (Inr acc1)
    have "getHats (snd acc1) = getHats (snd acc)"
      using visitAll_frame [OF Inr] by (rule sameProject_fields)
    with Inr Cons.IH [of acc1] show ?thesis
      by (simp add: forScripts_visitAll visitAll_append)
  qed
qed

lemma startHats_visitAll:
  "startHats e ty fs opt = visitAll ty fs (visitOrder e ty opt) ([], e)"
  by (cases opt)
     (simp_all add: startHats_def allScriptsByOpcodeDo_def forTargets_visitAll visitOrder_def)

lemma startHats_frame:
  assumes "startHats e ty fs opt = Inr (n, e')"
  shows "sameProject e e'"
  using visitAll_frame [of ty fs "visitOrder e ty opt" "([], e)" "(n, e')"] assms
  by (simp add: startHats_visitAll)

lemma visitAll_pass:
  assumes "visitAll ty fs ps (new, e) = Inr (new', e')" and "distinctThreads e"
  shows "distinctThreads e'
       \<and> (\<exists>N. new' = new @ N \<and> subseq (map threadKey N) ps
              \<and> (\<not> hatRestartExistingThreads ty \<longrightarrow> threads e' = threads e @ N))
       \<and> (\<exists>K. map threadKey (threads e') = map threadKey (threads e) @ K \<and> subseq K ps)"
  using assms
proof (induction ps arbitrary: new e)
  case Nil
  then show ?case by simp
next
  case (Cons p ps)
  obtain s t where p: "p = (s, t)" by (cases p)
  from Cons.prems p obtain new1 e1 where
    1: "startHat ty fs s t (new, e) = Inr (new1, e1)" and
    2: "visitAll ty fs ps (new1, e1) = Inr (new', e')"
    by (auto split: sum.splits)
  note st = startHat_step [OF 1 Cons.prems(2)]
  note ih = Cons.IH [OF 2 st(1)]
  from st(2) obtain N1 where N1: "new1 = new @ N1" "subseq (map threadKey N1) [(s, t)]"
    "\<not> hatRestartExistingThreads ty \<longrightarrow> threads e1 = threads e @ N1" by blast
  from ih obtain N2 where N2: "new' = new1 @ N2" "subseq (map threadKey N2) ps"
    "\<not> hatRestartExistingThreads ty \<longrightarrow> threads e' = threads e1 @ N2" by blast
  from st(3) obtain K1 where K1: "map threadKey (threads e1) = map threadKey (threads e) @ K1"
    "subseq K1 [(s, t)]" by blast
  from ih obtain K2 where K2: "map threadKey (threads e') = map threadKey (threads e1) @ K2"
    "subseq K2 ps" by blast
  have "subseq (map threadKey (N1 @ N2)) ([(s, t)] @ ps)"
    unfolding map_append using N1(2) N2(2) by (rule list_emb_append_mono)
  moreover have "subseq (K1 @ K2) ([(s, t)] @ ps)"
    using K1(2) K2(2) by (rule list_emb_append_mono)
  ultimately show ?case
    using ih N1 N2 K1 K2 p
    by (intro conjI exI [of _ "N1 @ N2"] exI [of _ "K1 @ K2"]) auto
qed

lemma visitAll_no_error:
  assumes "visitAll ty fs ps (new, e) = Inr acc'" and "(s, t) \<in> set ps"
  shows "\<not> isl (fieldsMatch e fs s)"
  using assms
proof (induction ps arbitrary: new e)
  case Nil
  then show ?case by simp
next
  case (Cons p ps)
  obtain s0 t0 where p: "p = (s0, t0)" by (cases p)
  from Cons.prems(1) p obtain new1 e1 where
    1: "startHat ty fs s0 t0 (new, e) = Inr (new1, e1)" and
    2: "visitAll ty fs ps (new1, e1) = Inr acc'"
    by (auto split: sum.splits)
  have fm: "fieldsMatch e1 = fieldsMatch e"
    using startHat_frame [OF 1] by (rule sameProject_fields)
  show ?case
  proof (cases "(s, t) = (s0, t0)")
    case True
    with 1 show ?thesis
      by (cases "fieldsMatch e fs s0") (auto simp: startHat.simps)
  next
    case False
    with Cons.prems(2) p have "(s, t) \<in> set ps" by auto
    from Cons.IH [OF 2 this] fm show ?thesis by simp
  qed
qed

lemma running_mono:
  assumes "running e k" and "threads e' = threads e @ N"
  shows "running e' k"
  using assms by (auto simp: running_def list_ex_iff)

lemma visitAll_norestart:
  assumes "visitAll ty fs ps (new, e) = Inr (new', e')"
    and "\<not> hatRestartExistingThreads ty"
  shows "\<exists>N. new' = new @ N \<and> threads e' = threads e @ N
           \<and> subseq (map threadKey N) ps \<and> list_all (\<lambda>th. \<not> vm_atEnd th) N
           \<and> (\<forall>(s, t) \<in> set ps. fieldsMatch e fs s = Inr True \<longrightarrow> running e' (s, t))
           \<and> events e' = events e @ map created N"
  using assms(1)
proof (induction ps arbitrary: new e)
  case Nil
  then show ?case by simp
next
  case (Cons p ps)
  obtain s t where p: "p = (s, t)" by (cases p)
  from Cons.prems p obtain new1 e1 where
    1: "startHat ty fs s t (new, e) = Inr (new1, e1)" and
    2: "visitAll ty fs ps (new1, e1) = Inr (new', e')"
    by (auto split: sum.splits)
  have fm: "fieldsMatch e1 = fieldsMatch e"
    using startHat_frame [OF 1] by (rule sameProject_fields)
  from Cons.IH [OF 2] obtain N2 where
    N2: "new' = new1 @ N2" "threads e' = threads e1 @ N2" "subseq (map threadKey N2) ps"
        "list_all (\<lambda>th. \<not> vm_atEnd th) N2"
        "\<forall>(s, t) \<in> set ps. fieldsMatch e1 fs s = Inr True \<longrightarrow> running e' (s, t)"
        "events e' = events e1 @ map created N2"
    by blast
  from startHat_cases_norestart [OF 1 assms(2)] obtain N1 where
    N1: "new1 = new @ N1" "threads e1 = threads e @ N1" "subseq (map threadKey N1) [(s, t)]"
        "list_all (\<lambda>th. \<not> vm_atEnd th) N1"
        "fieldsMatch e fs s = Inr True \<longrightarrow> running e1 (s, t)"
        "events e1 = events e @ map created N1"
    by (elim disjE conjE)
       (auto simp: running_def freshThread_def threadKey_def)
  have "subseq (map threadKey (N1 @ N2)) ([(s, t)] @ ps)"
    unfolding map_append using N1(3) N2(3) by (rule list_emb_append_mono)
  moreover have "fieldsMatch e fs s = Inr True \<longrightarrow> running e' (s, t)"
    using N1(5) N2(2) by (auto intro: running_mono)
  ultimately show ?case
    using N1 N2 p fm
    by (intro exI [of _ "N1 @ N2"]) auto
qed

lemma visitAll_norestart_idle:
  assumes "\<not> hatRestartExistingThreads ty"
    and "\<forall>(s, t) \<in> set ps. \<not> isl (fieldsMatch e fs s)"
    and "\<forall>(s, t) \<in> set ps. fieldsMatch e fs s = Inr True \<longrightarrow> running e (s, t)"
  shows "visitAll ty fs ps (new, e) = Inr (new, e)"
  using assms(2,3)
proof (induction ps)
  case Nil
  then show ?case by simp
next
  case (Cons p ps)
  obtain s t where p: "p = (s, t)" by (cases p)
  from Cons.prems p have ne: "\<not> isl (fieldsMatch e fs s)"
    and r: "fieldsMatch e fs s = Inr True \<longrightarrow> running e (s, t)" by auto
  have "startHat ty fs s t (new, e) = Inr (new, e)"
  proof (cases "fieldsMatch e fs s")
    case (Inl err)
    with ne show ?thesis by simp
  next
    case (Inr m)
    show ?thesis
    proof (cases m)
      case True
      with Inr r have "running e (s, t)" by simp
      then obtain th where
        "List.find (\<lambda>th. vm_target th = t \<and> vm_script th = s \<and> \<not> vm_atEnd th) (threads e)
           = Some th"
        using find_running_None [of t s e] by (cases "List.find (\<lambda>th. vm_target th = t \<and> vm_script th = s \<and> \<not> vm_atEnd th) (threads e)") auto
      with True Inr assms(1) show ?thesis by (simp add: startHat.simps)
    next
      case False
      with Inr show ?thesis by (simp add: startHat.simps)
    qed
  qed
  with Cons p show ?case by simp
qed

lemma visitAll_restart_covers:
  assumes "visitAll ty fs ps (new, e) = Inr (new', e')"
    and "hatRestartExistingThreads ty" and "distinctThreads e"
    and "(s, t) \<in> set ps" and "fieldsMatch e fs s = Inr True"
  shows "(s, t) \<in> set (map threadKey (threads e'))"
  using assms(1,3,4,5)
proof (induction ps arbitrary: new e)
  case Nil
  then show ?case by simp
next
  case (Cons p ps)
  obtain s0 t0 where p: "p = (s0, t0)" by (cases p)
  from Cons.prems(1) p obtain new1 e1 where
    1: "startHat ty fs s0 t0 (new, e) = Inr (new1, e1)" and
    2: "visitAll ty fs ps (new1, e1) = Inr (new', e')"
    by (auto split: sum.splits)
  have fm: "fieldsMatch e1 = fieldsMatch e"
    using startHat_frame [OF 1] by (rule sameProject_fields)
  note st = startHat_step [OF 1 Cons.prems(2)]
  from visitAll_pass [OF 2 st(1)] obtain K where
    K: "map threadKey (threads e') = map threadKey (threads e1) @ K" by blast
  show ?case
  proof (cases "(s, t) = (s0, t0)")
    case True
    have mem: "(s0, t0) \<in> threadKey ` set ((threads e)[i := freshThread e s0 t0])"
      if "i < length (threads e)" for i
      using set_update_memI [OF that, of "freshThread e s0 t0"]
      by (metis image_eqI threadKey_fresh)
    have "(s0, t0) \<in> set (map threadKey (threads e1))"
      using startHat_cases_restart [OF 1 Cons.prems(2) assms(2)] True Cons.prems(4)
      by (auto simp: mem)
    with K True show ?thesis by simp
  next
    case False
    with Cons.prems(3) p have "(s, t) \<in> set ps" by auto
    from Cons.IH [OF 2 st(1) this] Cons.prems(4) fm show ?thesis by simp
  qed
qed

lemma visitAll_restart_again:
  assumes "hatRestartExistingThreads ty" and "distinctThreads e"
    and "\<forall>(s, t) \<in> set ps. \<not> isl (fieldsMatch e fs s)"
    and "\<forall>(s, t) \<in> set ps. fieldsMatch e fs s = Inr True
            \<longrightarrow> (s, t) \<in> set (map threadKey (threads e))"
  shows "\<exists>new' e'. visitAll ty fs ps (new, e) = Inr (new', e')
           \<and> map threadKey (threads e') = map threadKey (threads e)"
  using assms(2,3,4)
proof (induction ps arbitrary: new e)
  case Nil
  then show ?case by simp
next
  case (Cons p ps)
  obtain s t where p: "p = (s, t)" by (cases p)
  from Cons.prems(2) p have "\<not> isl (fieldsMatch e fs s)" by auto
  from startHat_total [OF this] obtain new1 e1 where
    1: "startHat ty fs s t (new, e) = Inr (new1, e1)" by fastforce
  have fm: "fieldsMatch e1 = fieldsMatch e"
    using startHat_frame [OF 1] by (rule sameProject_fields)
  note st = startHat_step [OF 1 Cons.prems(1)]
  have upd: "map threadKey ((threads e)[i := freshThread e s t]) = map threadKey (threads e)"
    if "i < length (threads e)" "threadKey (threads e ! i) = (s, t)" for i
    using that by (simp add: map_update list_update_same_conv)
  have keys: "map threadKey (threads e1) = map threadKey (threads e)"
    using startHat_cases_restart [OF 1 Cons.prems(1) assms(1)] Cons.prems(3) p
    by (auto simp: upd)
  have "\<exists>new' e'. visitAll ty fs ps (new1, e1) = Inr (new', e')
           \<and> map threadKey (threads e') = map threadKey (threads e1)"
    using Cons.prems(2,3) p fm keys
    by (intro Cons.IH [OF st(1)]) auto
  with 1 keys p show ?case by auto
qed

lemma visitAll_restart_fresh:
  assumes "visitAll ty fs ps (new, e) = Inr (new', e')"
    and "hatRestartExistingThreads ty" and "distinctThreads e"
    and "distinct ps" and "set ps \<inter> set (map threadKey (threads e)) = {}"
  shows "\<exists>N. new' = new @ N \<and> threads e' = threads e @ N"
  using assms(1,3,4,5)
proof (induction ps arbitrary: new e)
  case Nil
  then show ?case by simp
next
  case (Cons p ps)
  obtain s t where p: "p = (s, t)" by (cases p)
  from Cons.prems(1) p obtain new1 e1 where
    1: "startHat ty fs s t (new, e) = Inr (new1, e1)" and
    2: "visitAll ty fs ps (new1, e1) = Inr (new', e')"
    by (auto split: sum.splits)
  note st = startHat_step [OF 1 Cons.prems(2)]
  have notin: "(s, t) \<notin> set (map threadKey (threads e))"
    using Cons.prems(4) p by auto
  have nth: "threadKey (threads e ! i) \<noteq> (s, t)" if "i < length (threads e)" for i
    using notin that by (metis length_map nth_map nth_mem)
  from startHat_cases_restart [OF 1 Cons.prems(2) assms(2)] nth
  obtain N1 where N1: "new1 = new @ N1" "threads e1 = threads e @ N1"
    "set (map threadKey N1) \<subseteq> {(s, t)}"
    by (elim disjE conjE exE) auto
  have "set ps \<inter> set (map threadKey (threads e1)) = {}"
    using Cons.prems(3,4) N1 p by auto
  from Cons.IH [OF 2 st(1) _ this] Cons.prems(3) obtain N2 where
    "new' = new1 @ N2" "threads e' = threads e1 @ N2" by auto
  with N1 show ?case by auto
qed

lemma visitAll_restart_new:
  assumes "visitAll ty fs ps (new, e) = Inr (new', e')"
    and "hatRestartExistingThreads ty" and "distinctThreads e"
  shows "\<exists>N. new' = new @ N \<and> map threadKey N = filter (matching e fs) ps"
  using assms(1,3)
proof (induction ps arbitrary: new e)
  case Nil
  then show ?case by simp
next
  case (Cons p ps)
  obtain s t where p: "p = (s, t)" by (cases p)
  from Cons.prems(1) p obtain new1 e1 where
    1: "startHat ty fs s t (new, e) = Inr (new1, e1)" and
    2: "visitAll ty fs ps (new1, e1) = Inr (new', e')"
    by (auto split: sum.splits)
  have fm: "fieldsMatch e1 = fieldsMatch e"
    using startHat_frame [OF 1] by (rule sameProject_fields)
  note st = startHat_step [OF 1 Cons.prems(2)]
  from startHat_cases_restart [OF 1 Cons.prems(2) assms(2)] obtain N1 where
    N1: "new1 = new @ N1" "map threadKey N1 = filter (matching e fs) [(s, t)]"
    by (elim disjE conjE exE) (auto simp: matching_def)
  from Cons.IH [OF 2 st(1)] obtain N2 where
    N2: "new' = new1 @ N2" "map threadKey N2 = filter (matching e1 fs) ps" by blast
  have "matching e1 fs = matching e fs"
    by (simp add: matching_def fun_eq_iff fm)
  with N1 N2 p show ?case
    by (intro exI [of _ "N1 @ N2"]) simp
qed

lemma subseq_set_mono: "subseq xs ys \<Longrightarrow> set xs \<subseteq> set ys"
  by (induction rule: list_emb.induct) auto

lemma fieldsMatch_empty:
  "\<not> isl (fieldsMatch e [] s) \<Longrightarrow> fieldsMatch e [] s = Inr True"
  by (auto simp: fieldsMatch_def split: option.splits)

lemma visitAll_norestart_all:
  assumes "visitAll ty [] (map (\<lambda>s. (s, c)) ss) (new, e) = Inr (new', e')"
    and "\<not> hatRestartExistingThreads ty"
    and "distinct ss" and "\<forall>s \<in> set ss. \<not> running e (s, c)"
  shows "\<exists>N. new' = new @ N \<and> map threadKey N = map (\<lambda>s. (s, c)) ss"
  using assms(1,3,4)
proof (induction ss arbitrary: new e)
  case Nil
  then show ?case by simp
next
  case (Cons s ss)
  from Cons.prems(1) obtain new1 e1 where
    1: "startHat ty [] s c (new, e) = Inr (new1, e1)" and
    2: "visitAll ty [] (map (\<lambda>s. (s, c)) ss) (new1, e1) = Inr (new', e')"
    by (auto split: sum.splits)
  have "\<not> isl (fieldsMatch e [] s)"
    using visitAll_no_error [OF Cons.prems(1), of s c] by simp
  then have m: "fieldsMatch e [] s = Inr True" by (rule fieldsMatch_empty)
  from startHat_cases_norestart [OF 1 assms(2)] m Cons.prems(3)
  have s1: "new1 = new @ [freshThread e s c]"
    "e1 = e\<lparr>nextVm := nextVm e + 1, threads := threads e @ [freshThread e s c],
                 events := events e @ [created (freshThread e s c)]\<rparr>"
    by auto
  have "\<forall>s' \<in> set ss. \<not> running e1 (s', c)"
    using Cons.prems(2,3) s1 by (auto simp: running_def)
  from Cons.IH [OF 2 _ this] Cons.prems(2) obtain N where
    "new' = new1 @ N" "map threadKey N = map (\<lambda>s. (s, c)) ss" by auto
  with s1 show ?case by simp
qed

lemma running_push:
  "running (e\<lparr>nextVm := n, threads := threads e @ [freshThread e s t], events := ev\<rparr>) k
     \<longleftrightarrow> running e k \<or> k = (s, t)"
  by (auto simp: running_def freshThread_def threadKey_def)

lemma visitAll_norestart_started:
  assumes "visitAll ty fs ps (new, e) = Inr (new', e')"
    and "\<not> hatRestartExistingThreads ty"
  shows "\<exists>N. new' = new @ N \<and> distinct (map threadKey N)
           \<and> set (map threadKey N) = {p \<in> set ps. matching e fs p \<and> \<not> running e p}"
  using assms(1)
proof (induction ps arbitrary: new e)
  case Nil
  then show ?case by simp
next
  case (Cons p ps)
  obtain s t where p: "p = (s, t)" by (cases p)
  from Cons.prems p obtain new1 e1 where
    1: "startHat ty fs s t (new, e) = Inr (new1, e1)" and
    2: "visitAll ty fs ps (new1, e1) = Inr (new', e')"
    by (auto split: sum.splits)
  have fm: "fieldsMatch e1 = fieldsMatch e"
    using startHat_frame [OF 1] by (rule sameProject_fields)
  have m: "matching e1 fs = matching e fs"
    by (simp add: matching_def fun_eq_iff fm)
  from Cons.IH [OF 2] obtain N2 where
    N2: "new' = new1 @ N2" "distinct (map threadKey N2)"
        "set (map threadKey N2) = {p \<in> set ps. matching e fs p \<and> \<not> running e1 p}"
    using m by auto
  from startHat_cases_norestart [OF 1 assms(2)]
  consider (skip) "new1 = new" "e1 = e" "\<not> (matching e fs (s, t) \<and> \<not> running e (s, t))"
    | (push) "new1 = new @ [freshThread e s t]"
        "e1 = e\<lparr>nextVm := nextVm e + 1, threads := threads e @ [freshThread e s t],
                 events := events e @ [created (freshThread e s t)]\<rparr>"
        "matching e fs (s, t)" "\<not> running e (s, t)"
    by (auto simp: matching_def)
  then show ?case
  proof cases
    case skip
    with N2 p show ?thesis
      by (intro exI [of _ N2]) auto
  next
    case push
    have r: "running e1 k \<longleftrightarrow> running e k \<or> k = (s, t)" for k
      unfolding push(2) by (rule running_push)
    have k: "set (map threadKey N2) = {p \<in> set ps. matching e fs p \<and> \<not> running e p} - {(s, t)}"
      using N2(3) by (auto simp: r)
    from k have "(s, t) \<notin> set (map threadKey N2)" by simp
    with N2(1,2) push k p show ?thesis
      by (intro exI [of _ "freshThread e s t # N2"]) auto
  qed
qed

subsection \<open>Where a restarted thread is put\<close>

lemma find_index_None: "find_index P xs = None \<longleftrightarrow> (\<forall>x \<in> set xs. \<not> P x)"
  by (induction xs) auto

lemma find_index_append_Some:
  "find_index P xs = Some i \<Longrightarrow> find_index P (xs @ ys) = Some i"
  by (induction xs arbitrary: i) (auto split: if_splits)

lemma find_index_append_None:
  "find_index P xs = None \<Longrightarrow> P y \<Longrightarrow> find_index P (xs @ [y]) = Some (length xs)"
  by (induction xs) (auto split: if_splits)

lemma find_index_update:
  "find_index P xs = Some i \<Longrightarrow> P y \<Longrightarrow> find_index P (xs[i := y]) = Some i"
  by (induction xs arbitrary: i) (auto split: if_splits)

lemma slotOf_Some:
  "slotOf k ts = Some i \<Longrightarrow> i < length ts \<and> threadKey (ts ! i) = k"
  unfolding slotOf_def by (rule find_index_Some)

lemma slotOf_keys: "slotOf k ts = find_index (\<lambda>y. y = k) (map threadKey ts)"
  unfolding slotOf_def by (induction ts) simp_all

lemma keys_place:
  "map threadKey (place f ts) =
     (if threadKey f \<in> set (map threadKey ts) then map threadKey ts
      else map threadKey ts @ [threadKey f])"
proof (cases "slotOf (threadKey f) ts")
  case None
  then show ?thesis
    using slotOf_None [of "threadKey f" ts] by (simp add: place_def)
next
  case (Some i)
  from slotOf_Some [OF Some] have i: "i < length ts" "threadKey (ts ! i) = threadKey f"
    by auto
  then have "threadKey f \<in> set (map threadKey ts)"
    by (metis length_map nth_map nth_mem)
  with Some i show ?thesis
    by (simp add: place_def map_update list_update_same_conv)
qed

lemma slotOf_place_old:
  assumes "k \<in> set (map threadKey ts)"
  shows "slotOf k (place f ts) = slotOf k ts"
    and "k \<in> set (map threadKey (place f ts))"
proof -
  from assms obtain i where i: "find_index (\<lambda>y. y = k) (map threadKey ts) = Some i"
    using find_index_None [of "\<lambda>y. y = k" "map threadKey ts"]
    by (cases "find_index (\<lambda>y. y = k) (map threadKey ts)") auto
  show "slotOf k (place f ts) = slotOf k ts"
    using i find_index_append_Some [OF i, of "[threadKey f]"]
    by (simp add: slotOf_keys keys_place)
  show "k \<in> set (map threadKey (place f ts))"
    using assms by (simp add: keys_place)
qed

lemma place_slot:
  "\<exists>i. slotOf (threadKey f) (place f ts) = Some i \<and> place f ts ! i = f
       \<and> (\<forall>j < length (place f ts). j \<noteq> i \<longrightarrow> j < length ts \<and> place f ts ! j = ts ! j)"
proof (cases "slotOf (threadKey f) ts")
  case None
  then have "slotOf (threadKey f) (ts @ [f]) = Some (length ts)"
    unfolding slotOf_def by (intro find_index_append_None) auto
  with None show ?thesis
    by (auto simp: place_def nth_append)
next
  case (Some i)
  from slotOf_Some [OF Some] have i: "i < length ts" by simp
  from Some have "slotOf (threadKey f) (ts[i := f]) = Some i"
    unfolding slotOf_def by (intro find_index_update) auto
  with Some i show ?thesis
    by (auto simp: place_def)
qed

lemma slotOf_fold_place_old:
  assumes "k \<in> set (map threadKey ts)"
  shows "slotOf k (fold place N ts) = slotOf k ts \<and> k \<in> set (map threadKey (fold place N ts))"
  using assms
proof (induction N arbitrary: ts)
  case Nil
  then show ?case by simp
next
  case (Cons f N)
  from slotOf_place_old [OF Cons.prems, of f] Cons.IH [of "place f ts"]
  show ?case by simp
qed

lemma fold_place_slot:
  assumes "k \<in> set (map threadKey N)"
  shows "\<exists>i. slotOf k (fold place N ts) = Some i
           \<and> fold place N ts ! i = last (filter (\<lambda>th. threadKey th = k) N)
           \<and> (k \<in> set (map threadKey ts) \<longrightarrow> slotOf k ts = Some i)"
  using assms
proof (induction N rule: rev_induct)
  case Nil
  then show ?case by simp
next
  case (snoc f N)
  let ?ts0 = "fold place N ts"
  from place_slot [of f ?ts0] obtain i where
    i: "slotOf (threadKey f) (place f ?ts0) = Some i" "place f ?ts0 ! i = f"
       "\<forall>j < length (place f ?ts0). j \<noteq> i \<longrightarrow> j < length ?ts0 \<and> place f ?ts0 ! j = ?ts0 ! j"
    by blast
  show ?case
  proof (cases "k = threadKey f")
    case True
    have "k \<in> set (map threadKey ts) \<longrightarrow> slotOf k ts = Some i"
    proof
      assume old: "k \<in> set (map threadKey ts)"
      from slotOf_fold_place_old [OF old, of N] have
        "slotOf k ?ts0 = slotOf k ts" "k \<in> set (map threadKey ?ts0)" by auto
      with slotOf_place_old(1) [of k ?ts0 f] i(1) True show "slotOf k ts = Some i"
        by simp
    qed
    with i True show ?thesis by simp
  next
    case False
    with snoc.prems have "k \<in> set (map threadKey N)" by auto
    from snoc.IH [OF this] obtain j where
      j: "slotOf k ?ts0 = Some j" "?ts0 ! j = last (filter (\<lambda>th. threadKey th = k) N)"
         "k \<in> set (map threadKey ts) \<longrightarrow> slotOf k ts = Some j"
      by blast
    have old: "k \<in> set (map threadKey ?ts0)"
      using j(1) slotOf_None [of k ?ts0] by auto
    have sj: "slotOf k (place f ?ts0) = Some j"
      using slotOf_place_old(1) [OF old, of f] j(1) by simp
    have "j \<noteq> i"
      using slotOf_Some [OF sj] slotOf_Some [OF i(1)] False by auto
    moreover have "j < length (place f ?ts0)"
      using slotOf_Some [OF sj] by simp
    ultimately have "place f ?ts0 ! j = ?ts0 ! j"
      using i(3) by simp
    with sj j False show ?thesis by simp
  qed
qed

lemma fold_place_others:
  assumes "j < length (fold place N ts)"
  shows "fold place N ts ! j \<in> set N \<or> (j < length ts \<and> fold place N ts ! j = ts ! j)"
  using assms
proof (induction N arbitrary: j rule: rev_induct)
  case Nil
  then show ?case by simp
next
  case (snoc f N)
  let ?ts0 = "fold place N ts"
  from place_slot [of f ?ts0] obtain i where
    i: "place f ?ts0 ! i = f"
       "\<forall>j < length (place f ?ts0). j \<noteq> i \<longrightarrow> j < length ?ts0 \<and> place f ?ts0 ! j = ?ts0 ! j"
    by blast
  show ?case
  proof (cases "j = i")
    case True
    with i(1) show ?thesis by simp
  next
    case False
    with i(2) snoc.prems have "j < length ?ts0" "place f ?ts0 ! j = ?ts0 ! j" by auto
    with snoc.IH [of j] show ?thesis by auto
  qed
qed

lemma fold_place_gone:
  assumes "distinct (map vm_id ts)"
    and "\<forall>th \<in> set N. vm_id th \<notin> set (map vm_id ts)"
    and "k \<in> set (map threadKey N)" and "slotOf k ts = Some i"
  shows "ts ! i \<notin> set (fold place N ts)"
proof
  let ?ts' = "fold place N ts"
  assume "ts ! i \<in> set ?ts'"
  then obtain j where j: "j < length ?ts'" "?ts' ! j = ts ! i"
    by (auto simp: in_set_conv_nth)
  have i: "i < length ts" using slotOf_Some [OF assms(4)] by simp
  then have old: "vm_id (ts ! i) \<in> set (map vm_id ts)" by simp
  have k: "k \<in> set (map threadKey ts)"
    using assms(4) slotOf_None [of k ts] by auto
  have "filter (\<lambda>th. threadKey th = k) N \<noteq> []"
    using assms(3) by (auto simp: filter_empty_conv)
  then have "last (filter (\<lambda>th. threadKey th = k) N) \<in> set (filter (\<lambda>th. threadKey th = k) N)"
    by (rule last_in_set)
  then have "last (filter (\<lambda>th. threadKey th = k) N) \<in> set N" by simp
  with fold_place_slot [OF assms(3), of ts] k assms(4) have
    new: "?ts' ! i \<in> set N"
    by auto
  from fold_place_others [OF j(1)] show False
  proof
    assume "?ts' ! j \<in> set N"
    with j(2) assms(2) old show False by auto
  next
    assume a: "j < length ts \<and> ?ts' ! j = ts ! j"
    with j(2) have "ts ! j = ts ! i" by simp
    with a i assms(1) have "j = i"
      by (metis length_map nth_eq_iff_index_eq nth_map)
    with a new assms(2) old show False by auto
  qed
qed

lemma startHat_restart_place:
  assumes "startHat ty fs s t (new, e) = Inr (new', e')" and "distinctThreads e"
    and "hatRestartExistingThreads ty"
  shows "(new' = new \<and> e' = e)
       \<or> (new' = new @ [freshThread e s t]
          \<and> threads e' = place (freshThread e s t) (threads e)
          \<and> events e' = events e @ [created (freshThread e s t)]
          \<and> nextVm e' = nextVm e + 1)"
  using startHat_cases_restart [OF assms] slotOf_None [of "(s, t)" "threads e"]
  by (auto simp: place_def)

lemma visitAll_restart_place:
  assumes "visitAll ty fs ps (new, e) = Inr (new', e')"
    and "hatRestartExistingThreads ty" and "distinctThreads e"
  shows "\<exists>N. new' = new @ N \<and> threads e' = fold place N (threads e)
           \<and> events e' = events e @ map created N
           \<and> list_all (\<lambda>th. nextVm e \<le> vm_id th) N \<and> nextVm e \<le> nextVm e'"
  using assms(1,3)
proof (induction ps arbitrary: new e)
  case Nil
  then show ?case by simp
next
  case (Cons p ps)
  obtain s t where p: "p = (s, t)" by (cases p)
  from Cons.prems(1) p obtain new1 e1 where
    1: "startHat ty fs s t (new, e) = Inr (new1, e1)" and
    2: "visitAll ty fs ps (new1, e1) = Inr (new', e')"
    by (auto split: sum.splits)
  note st = startHat_step [OF 1 Cons.prems(2)]
  from Cons.IH [OF 2 st(1)] obtain N2 where
    N2: "new' = new1 @ N2" "threads e' = fold place N2 (threads e1)"
        "events e' = events e1 @ map created N2"
        "list_all (\<lambda>th. nextVm e1 \<le> vm_id th) N2" "nextVm e1 \<le> nextVm e'"
    by blast
  from startHat_restart_place [OF 1 Cons.prems(2) assms(2)] obtain N1 where
    N1: "new1 = new @ N1" "threads e1 = fold place N1 (threads e)"
        "events e1 = events e @ map created N1"
        "list_all (\<lambda>th. nextVm e \<le> vm_id th) N1" "nextVm e \<le> nextVm e1"
    by (elim disjE conjE) (auto simp: freshThread_def)
  have "list_all (\<lambda>th. nextVm e \<le> vm_id th) N2"
    using N2(4) N1(5) by (auto simp: list_all_iff)
  with N1 N2 show ?case
    by (intro exI [of _ "N1 @ N2"]) auto
qed

lemma startHats_restart_slots:
  assumes "startHats e ty fs opt = Inr (new, e')"
    and "hatRestartExistingThreads ty" and "distinctThreads e"
  shows "threads e' = fold place new (threads e)"
    and "events e' = events e @ map created new"
    and "\<forall>k \<in> set (map threadKey new).
           \<exists>i. slotOf k (threads e') = Some i
             \<and> threads e' ! i = last (filter (\<lambda>th. threadKey th = k) new)
             \<and> (k \<in> set (map threadKey (threads e))
                  \<longrightarrow> slotOf k (threads e) = Some i \<and> threads e ! i \<notin> set (threads e'))"
    and "\<forall>i < length (threads e).
           threadKey (threads e ! i) \<notin> set (map threadKey new)
             \<longrightarrow> threads e' ! i = threads e ! i"
proof -
  have v: "visitAll ty fs (visitOrder e ty opt) ([], e) = Inr (new, e')"
    using assms(1) by (simp add: startHats_visitAll)
  from visitAll_restart_place [OF v assms(2,3)] have
    t: "threads e' = fold place new (threads e)" and
    ev: "events e' = events e @ map created new" and
    fr: "list_all (\<lambda>th. nextVm e \<le> vm_id th) new"
    by auto
  show "threads e' = fold place new (threads e)" by (rule t)
  show "events e' = events e @ map created new" by (rule ev)
  have d: "distinct (map vm_id (threads e))"
    using assms(3) by (simp add: distinctThreads_def)
  have fresh: "\<forall>th \<in> set new. vm_id th \<notin> set (map vm_id (threads e))"
    using fr assms(3) by (fastforce simp: distinctThreads_def list_all_iff)
  show "\<forall>k \<in> set (map threadKey new).
           \<exists>i. slotOf k (threads e') = Some i
             \<and> threads e' ! i = last (filter (\<lambda>th. threadKey th = k) new)
             \<and> (k \<in> set (map threadKey (threads e))
                  \<longrightarrow> slotOf k (threads e) = Some i \<and> threads e ! i \<notin> set (threads e'))"
  proof
    fix k assume k: "k \<in> set (map threadKey new)"
    from fold_place_slot [OF k, of "threads e"] obtain i where
      i: "slotOf k (threads e') = Some i"
         "threads e' ! i = last (filter (\<lambda>th. threadKey th = k) new)"
         "k \<in> set (map threadKey (threads e)) \<longrightarrow> slotOf k (threads e) = Some i"
      unfolding t by blast
    have "threads e ! i \<notin> set (threads e')" if "k \<in> set (map threadKey (threads e))"
      unfolding t using that i(3) by (intro fold_place_gone [OF d fresh k]) simp
    with i show "\<exists>i. slotOf k (threads e') = Some i
             \<and> threads e' ! i = last (filter (\<lambda>th. threadKey th = k) new)
             \<and> (k \<in> set (map threadKey (threads e))
                  \<longrightarrow> slotOf k (threads e) = Some i \<and> threads e ! i \<notin> set (threads e'))"
      by blast
  qed
  show "\<forall>i < length (threads e).
           threadKey (threads e ! i) \<notin> set (map threadKey new)
             \<longrightarrow> threads e' ! i = threads e ! i"
  proof (intro allI impI)
    fix i assume i: "i < length (threads e)"
      and nk: "threadKey (threads e ! i) \<notin> set (map threadKey new)"
    from visitAll_pass [OF v assms(3)] obtain K where
      K: "map threadKey (threads e') = map threadKey (threads e) @ K" by blast
    then have len: "length (threads e) \<le> length (threads e')"
      by (metis length_append length_map le_add1)
    from K i have same: "threadKey (threads e' ! i) = threadKey (threads e ! i)"
      by (metis len length_map less_le_trans nth_append nth_map)
    have "i < length (fold place new (threads e))" using i len t by simp
    from fold_place_others [OF this] have
      "threads e' ! i \<in> set new \<or> threads e' ! i = threads e ! i"
      unfolding t [symmetric] by auto
    moreover have "threads e' ! i \<notin> set new"
    proof
      assume "threads e' ! i \<in> set new"
      then have "threadKey (threads e' ! i) \<in> set (map threadKey new)" by simp
      with same nk show False by simp
    qed
    ultimately show "threads e' ! i = threads e ! i" by simp
  qed
qed

subsection \<open>Clones and layers\<close>

lemma initClone_cases:
  assumes "initClone e c = Inr e'"
  shows "(e' = e \<and> (c = None \<or> (0 \<le> cloneLimit e \<and> cloneLimit e \<le> int (length (clones e)))))
       \<or> (\<exists>x rootSprite newThreads e1. c = Some x
            \<and> \<not> (0 \<le> cloneLimit e \<and> cloneLimit e \<le> int (length (clones e)))
            \<and> cloneSprite e x = Some rootSprite
            \<and> List.find (\<lambda>th. vm_target th = x \<and> \<not> vm_atEnd th) (threads e) = None
            \<and> startHats e CloneInit [] (Some x) = Inr (newThreads, e1)
            \<and> x \<notin> set (clones e1) \<and> x \<notin> set (executableTargets e1)
            \<and> e' = e1\<lparr>clones := x # clones e1,
                       executableTargets := executableTargets e1 @ [x],
                       events := events e1 @ [CloneInserted x, TargetAppended x]\<rparr>)"
  using assms
  by (auto simp: initClone_def split: option.splits if_splits sum.splits)

lemma initClone_clones:
  assumes "initClone e c = Inr e'"
  shows "cloneLimit e' = cloneLimit e"
    and "clones e' = clones e
         \<or> (\<exists>x. c = Some x \<and> clones e' = x # clones e \<and> x \<notin> set (clones e)
              \<and> \<not> (0 \<le> cloneLimit e \<and> cloneLimit e \<le> int (length (clones e))))"
proof -
  from initClone_cases [OF assms] show "cloneLimit e' = cloneLimit e"
    by (auto dest!: startHats_frame sameProject_fields(3))
  from initClone_cases [OF assms] show "clones e' = clones e
         \<or> (\<exists>x. c = Some x \<and> clones e' = x # clones e \<and> x \<notin> set (clones e)
              \<and> \<not> (0 \<le> cloneLimit e \<and> cloneLimit e \<le> int (length (clones e))))"
    by (auto dest!: startHats_frame sameProject_fields(2))
qed

lemma updateSpriteLayerOrder_clones:
  "updateSpriteLayerOrder e = Inr e' \<Longrightarrow> clones e' = clones e \<and> cloneLimit e' = cloneLimit e"
  by (auto simp: updateSpriteLayerOrder_def split: if_splits)

lemma perform_clones:
  assumes "perform K e op = Inr e'" and "\<not> isSetCloneLimit op"
  shows "cloneLimit e' = cloneLimit e"
    and "clones e' = clones e \<or> length (clones e') \<le> length (clones e)
         \<or> (\<exists>x. clones e' = x # clones e
              \<and> \<not> (0 \<le> cloneLimit e \<and> cloneLimit e \<le> int (length (clones e))))"
proof -
  show "cloneLimit e' = cloneLimit e"
  proof (cases op)
    case (InitClone c)
    with assms show ?thesis using initClone_clones(1) by simp
  next
    case (StartHats ty fs opt)
    with assms show ?thesis
      by (auto simp: map_sum_def split: sum.splits dest!: startHats_frame sameProject_fields(3))
  next
    case (SetKeyState k p)
    with assms show ?thesis
      by (auto simp: setKeyState_def Let_def split: sum.splits if_splits
          dest!: startHats_frame sameProject_fields(3))
  next
    case (MoveSpriteToFront s)
    with assms show ?thesis
      by (auto simp: moveSpriteToFront_def split: option.splits if_splits
          dest!: updateSpriteLayerOrder_clones)
  next
    case (MoveSpriteToBack s)
    with assms show ?thesis
      by (auto simp: moveSpriteToBack_def split: option.splits if_splits
          dest!: updateSpriteLayerOrder_clones)
  qed (use assms in \<open>auto simp: deinitClone_def\<close>)
  show "clones e' = clones e \<or> length (clones e') \<le> length (clones e)
         \<or> (\<exists>x. clones e' = x # clones e
              \<and> \<not> (0 \<le> cloneLimit e \<and> cloneLimit e \<le> int (length (clones e))))"
  proof (cases op)
    case (InitClone c)
    with assms show ?thesis using initClone_clones(2) [of e c e'] by auto
  next
    case (DeinitClone c)
    have "length (removeAll c (clones e)) \<le> length (clones e)"
      by (simp add: removeAll_filter_not_eq)
    with DeinitClone assms show ?thesis by (auto simp: deinitClone_def)
  next
    case (StartHats ty fs opt)
    with assms show ?thesis
      by (auto simp: map_sum_def split: sum.splits dest!: startHats_frame sameProject_fields(2))
  next
    case (SetKeyState k p)
    with assms show ?thesis
      by (auto simp: setKeyState_def Let_def split: sum.splits if_splits
          dest!: startHats_frame sameProject_fields(2))
  next
    case (MoveSpriteToFront s)
    with assms show ?thesis
      by (auto simp: moveSpriteToFront_def split: option.splits if_splits
          dest!: updateSpriteLayerOrder_clones)
  next
    case (MoveSpriteToBack s)
    with assms show ?thesis
      by (auto simp: moveSpriteToBack_def split: option.splits if_splits
          dest!: updateSpriteLayerOrder_clones)
  next
    case (SetCloneLimit l)
    with assms show ?thesis by simp
  qed
qed

lemma find_index_split:
  assumes "s \<notin> set a"
  shows "find_index (\<lambda>t. t = s) (a @ s # b) = Some (length a)"
  using assms by (induction a) auto

lemma fold_layer_other:
  assumes "x \<notin> (\<lambda>i. ts ! i) ` set is"
  shows "fold (\<lambda>i lo. lo(ts ! i := int i)) is lo x = lo x"
  using assms by (induction "is" arbitrary: lo) auto

lemma fold_layer_at:
  assumes "j \<in> set is" and "distinct (map (\<lambda>i. ts ! i) is)"
  shows "fold (\<lambda>i lo. lo(ts ! i := int i)) is lo (ts ! j) = int j"
  using assms
proof (induction "is" arbitrary: lo)
  case Nil
  then show ?case by simp
next
  case (Cons i "is")
  show ?case
  proof (cases "j = i")
    case True
    with Cons.prems(2) have "ts ! i \<notin> (\<lambda>i. ts ! i) ` set is" by auto
    from fold_layer_other [OF this, of "lo(ts ! i := int i)"] True show ?thesis
      by (simp only: fold_Cons comp_apply fun_upd_same)
  next
    case False
    with Cons.prems have "j \<in> set is" "distinct (map (\<lambda>i. ts ! i) is)" by auto
    from Cons.IH [OF this] show ?thesis by simp
  qed
qed

lemma updateSpriteLayerOrder_ok:
  assumes "stageFirst e"
  shows "\<exists>e'. updateSpriteLayerOrder e = Inr e' \<and> executableTargets e' = executableTargets e
            \<and> isStage e' = isStage e \<and> layerOrderMatchesIndex e' \<and> stageFirst e'"
proof -
  let ?ts = "executableTargets e"
  let ?lo = "fold (\<lambda>i lo. lo(?ts ! i := int i)) [1 ..< length ?ts] (layerOrder e)"
  have d: "distinct (map (\<lambda>i. ?ts ! i) [1 ..< length ?ts])"
    using assms by (auto simp: stageFirst_def distinct_map inj_on_def nth_eq_iff_index_eq)
  have at: "?lo (?ts ! j) = int j" if "j \<in> set [1 ..< length ?ts]" for j
    using fold_layer_at [OF that d] .
  have "map ?lo (tl ?ts) = map int [1 ..< length ?ts]"
  proof (rule nth_equalityI)
    show "length (map ?lo (tl ?ts)) = length (map int [1 ..< length ?ts])" by simp
  next
    fix k assume "k < length (map ?lo (tl ?ts))"
    then have k: "k < length ?ts - 1" by simp
    then have "tl ?ts ! k = ?ts ! (k + 1)" by (simp add: nth_tl)
    moreover have "?lo (?ts ! (k + 1)) = int (k + 1)"
      using k by (intro at) auto
    ultimately show "map ?lo (tl ?ts) ! k = map int [1 ..< length ?ts] ! k"
      using k by simp
  qed
  then show ?thesis
    using assms
    by (auto simp: updateSpriteLayerOrder_def stageFirst_def layerOrderMatchesIndex_def)
qed

lemma stageFirst_split:
  assumes "stageFirst e" and "s \<in> set (tl (executableTargets e))"
  obtains st a b where "executableTargets e = st # a @ s # b" "isStage e st"
    "distinct (st # a @ s # b)"
proof -
  from assms obtain st rest where ts: "executableTargets e = st # rest" "s \<in> set rest"
    "isStage e st" "distinct (st # rest)"
    by (cases "executableTargets e") (auto simp: stageFirst_def)
  from ts(2) obtain a b where "rest = a @ s # b" by (auto simp: in_set_conv_decomp)
  with ts that show ?thesis by auto
qed

lemma moveSpriteToFront_ok:
  assumes "stageFirst e" and "s \<in> set (tl (executableTargets e))"
  shows "\<exists>e'. moveSpriteToFront e (Some s) = Inr e' \<and> stageFirst e'
            \<and> isStage e' = isStage e
            \<and> set (tl (executableTargets e')) = set (tl (executableTargets e))
            \<and> last (executableTargets e') = s
            \<and> (2 < length (executableTargets e) \<or> layerOrderMatchesIndex e
                 \<longrightarrow> layerOrderMatchesIndex e')
            \<and> (length (executableTargets e) \<le> 2 \<longrightarrow> e' = e)"
proof -
  from assms obtain st a b where ts: "executableTargets e = st # a @ s # b" "isStage e st"
    "distinct (st # a @ s # b)" by (rule stageFirst_split)
  show ?thesis
  proof (cases "length (executableTargets e) \<le> 2")
    case True
    with ts have "a = []" "b = []" by auto
    with True ts assms show ?thesis
      by (simp add: moveSpriteToFront_def)
  next
    case False
    have fi: "find_index (\<lambda>t. t = s) (executableTargets e) = Some (Suc (length a))"
      using ts find_index_split [of s a b] by auto
    have rot: "std_rotate (Suc (length a)) (Suc (length a) + 1) (length (executableTargets e))
                 (executableTargets e) = Some (st # a @ b @ [s])"
      using ts by (simp add: std_rotate_def)
    let ?e1 = "e\<lparr>executableTargets := st # a @ b @ [s]\<rparr>"
    have "stageFirst ?e1" using ts by (auto simp: stageFirst_def)
    from updateSpriteLayerOrder_ok [OF this] obtain e' where
      e': "updateSpriteLayerOrder ?e1 = Inr e'" "executableTargets e' = st # a @ b @ [s]"
          "isStage e' = isStage e" "layerOrderMatchesIndex e'" "stageFirst e'"
      by auto
    have "moveSpriteToFront e (Some s) = Inr e'"
      using False fi rot e'(1) by (simp add: moveSpriteToFront_def)
    with e' ts False show ?thesis by auto
  qed
qed

lemma moveSpriteToBack_ok:
  assumes "stageFirst e" and "s \<in> set (tl (executableTargets e))"
  shows "\<exists>e'. moveSpriteToBack e (Some s) = Inr e' \<and> stageFirst e'
            \<and> isStage e' = isStage e
            \<and> set (tl (executableTargets e')) = set (tl (executableTargets e))
            \<and> executableTargets e' ! 1 = s
            \<and> (2 < length (executableTargets e) \<or> layerOrderMatchesIndex e
                 \<longrightarrow> layerOrderMatchesIndex e')
            \<and> (length (executableTargets e) \<le> 2 \<longrightarrow> e' = e)"
proof -
  from assms obtain st a b where ts: "executableTargets e = st # a @ s # b" "isStage e st"
    "distinct (st # a @ s # b)" by (rule stageFirst_split)
  show ?thesis
  proof (cases "length (executableTargets e) \<le> 2")
    case True
    with ts have "a = []" "b = []" by auto
    with True ts assms show ?thesis
      by (simp add: moveSpriteToBack_def)
  next
    case False
    have fi: "find_index (\<lambda>t. t = s) (executableTargets e) = Some (Suc (length a))"
      using ts find_index_split [of s a b] by auto
    have rot: "std_rotate 1 (Suc (length a)) (Suc (length a) + 1) (executableTargets e)
                 = Some (st # s # a @ b)"
      using ts by (simp add: std_rotate_def)
    let ?e1 = "e\<lparr>executableTargets := st # s # a @ b\<rparr>"
    have "stageFirst ?e1" using ts by (auto simp: stageFirst_def)
    from updateSpriteLayerOrder_ok [OF this] obtain e' where
      e': "updateSpriteLayerOrder ?e1 = Inr e'" "executableTargets e' = st # s # a @ b"
          "isStage e' = isStage e" "layerOrderMatchesIndex e'" "stageFirst e'"
      by auto
    have "moveSpriteToBack e (Some s) = Inr e'"
      using False fi rot e'(1) by (simp add: moveSpriteToBack_def)
    with e' ts False show ?thesis by auto
  qed
qed

lemma Inr_projr: "\<not> isl r \<Longrightarrow> r = Inr (fst (projr r), snd (projr r))"
  by (cases r) auto

lemma Inr_projr_plain: "\<not> isl r \<Longrightarrow> r = Inr (projr r)"
  by (cases r) auto

section \<open>Properties of the engine\<close>

text \<open>
  Claim C3, as the code has it. \<open>startHats\<close> applies its callback to the (script, target)
  pairs of \<open>visitOrder\<close> in order: the targets last to first, the scripts of each in
  registration order. The threads it returns are in that order (for a restarting hat
  type: one for every visited pair whose fields match), and they were constructed in that
  order. In the thread list every slot that existed keeps its (script, target) pair, and
  what is appended is in visiting order. The returned threads are the appended ones for
  the hat types that do not restart, and for the others when no pair is visited twice and
  no visited pair has a thread yet. For a restarting hat type the thread list is the old
  one with every returned thread, in order, put in the slot of the first thread of its
  pair, or at the end when its pair has no thread: afterwards the slot of each returned
  pair holds the thread returned last for it, and when the pair had a thread before, this
  is the slot that thread was in, and that thread is in the list no more.
\<close>

theorem startHats_order:
  assumes "startHats e ty fs opt = Inr (new, e')"
    and "hatRestartExistingThreads ty \<Longrightarrow> distinctThreads e"
  shows "visitAll ty fs (visitOrder e ty opt) ([], e) = Inr (new, e')
       \<and> subseq (map threadKey new) (visitOrder e ty opt)
       \<and> (hatRestartExistingThreads ty
            \<longrightarrow> map threadKey new = filter (matching e fs) (visitOrder e ty opt))
       \<and> (\<exists>K. map threadKey (threads e') = map threadKey (threads e) @ K
              \<and> subseq K (visitOrder e ty opt))
       \<and> (\<not> hatRestartExistingThreads ty \<or>
            (distinct (visitOrder e ty opt)
             \<and> set (visitOrder e ty opt) \<inter> set (map threadKey (threads e)) = {})
          \<longrightarrow> threads e' = threads e @ new)
       \<and> events e' = events e @ map created new
       \<and> (hatRestartExistingThreads ty
            \<longrightarrow> threads e' = fold place new (threads e)
              \<and> (\<forall>k \<in> set (map threadKey new).
                    \<exists>i. slotOf k (threads e') = Some i
                      \<and> threads e' ! i = last (filter (\<lambda>th. threadKey th = k) new)
                      \<and> (k \<in> set (map threadKey (threads e))
                           \<longrightarrow> slotOf k (threads e) = Some i
                             \<and> threads e ! i \<notin> set (threads e')))
              \<and> (\<forall>i < length (threads e).
                    threadKey (threads e ! i) \<notin> set (map threadKey new)
                      \<longrightarrow> threads e' ! i = threads e ! i))"
proof -
  have v: "visitAll ty fs (visitOrder e ty opt) ([], e) = Inr (new, e')"
    using assms(1) by (simp add: startHats_visitAll)
  show ?thesis
  proof (cases "hatRestartExistingThreads ty")
    case True
    with assms(2) have wf: "distinctThreads e" by simp
    note sl = startHats_restart_slots [OF assms(1) True wf]
    from visitAll_pass [OF v wf] visitAll_restart_fresh [OF v True wf]
      visitAll_restart_new [OF v True wf] v True
    have "visitAll ty fs (visitOrder e ty opt) ([], e) = Inr (new, e')
       \<and> subseq (map threadKey new) (visitOrder e ty opt)
       \<and> (hatRestartExistingThreads ty
            \<longrightarrow> map threadKey new = filter (matching e fs) (visitOrder e ty opt))
       \<and> (\<exists>K. map threadKey (threads e') = map threadKey (threads e) @ K
              \<and> subseq K (visitOrder e ty opt))
       \<and> (\<not> hatRestartExistingThreads ty \<or>
            (distinct (visitOrder e ty opt)
             \<and> set (visitOrder e ty opt) \<inter> set (map threadKey (threads e)) = {})
          \<longrightarrow> threads e' = threads e @ new)"
      by auto
    with sl show ?thesis by blast
  next
    case False
    from visitAll_norestart [OF v False] obtain N where
      N: "new = N" "threads e' = threads e @ N" "subseq (map threadKey N) (visitOrder e ty opt)"
         "events e' = events e @ map created N"
      by auto
    have "subseq (map threadKey N) (visitOrder e ty opt)" by (rule N(3))
    with v N False show ?thesis by auto
  qed
qed

theorem startHats_order_witness:
  "distinctThreads demoEngineRunning
   \<and> \<not> isl greenFlagRunning
   \<and> visitOrder demoEngineRunning GreenFlag None = [(11, 1), (10, 0)]
   \<and> map threadKey (fst (projr greenFlagRunning)) = [(11, 1), (10, 0)]
   \<and> subseq (map threadKey (fst (projr greenFlagRunning)))
        (visitOrder demoEngineRunning GreenFlag None)
   \<and> map threadKey (threads (snd (projr greenFlagRunning))) = [(10, 0), (11, 1)]
   \<and> slotOf (10, 0) (threads demoEngineRunning) = Some 0
   \<and> threads (snd (projr greenFlagRunning)) ! 0
       = last (filter (\<lambda>th. threadKey th = (10, 0)) (fst (projr greenFlagRunning)))
   \<and> threads demoEngineRunning ! 0 \<notin> set (threads (snd (projr greenFlagRunning)))
   \<and> events (snd (projr greenFlagRunning))
       = events demoEngineRunning @ map created (fst (projr greenFlagRunning))"
proof -
  have wf: "distinctThreads demoEngineRunning" by code_simp
  have ok: "\<not> isl greenFlagRunning" by code_simp
  have eq: "startHats demoEngineRunning GreenFlag [] None
              = Inr (fst (projr greenFlagRunning), snd (projr greenFlagRunning))"
    using Inr_projr [OF ok] by (simp add: greenFlagRunning_def)
  have c: "visitOrder demoEngineRunning GreenFlag None = [(11, 1), (10, 0)]
     \<and> map threadKey (fst (projr greenFlagRunning)) = [(11, 1), (10, 0)]
     \<and> map threadKey (threads (snd (projr greenFlagRunning))) = [(10, 0), (11, 1)]"
    by code_simp
  have k: "(10, 0) \<in> set (map threadKey (fst (projr greenFlagRunning)))"
    "(10, 0) \<in> set (map threadKey (threads demoEngineRunning))"
    "slotOf (10, 0) (threads demoEngineRunning) = Some 0"
    "hatRestartExistingThreads GreenFlag"
    by code_simp+
  note t = startHats_order [OF eq wf]
  from t have s: "subseq (map threadKey (fst (projr greenFlagRunning)))
       (visitOrder demoEngineRunning GreenFlag None)"
    by simp
  from t have ev: "events (snd (projr greenFlagRunning))
       = events demoEngineRunning @ map created (fst (projr greenFlagRunning))"
    by simp
  from t k(4) have
    "\<forall>k \<in> set (map threadKey (fst (projr greenFlagRunning))).
       \<exists>i. slotOf k (threads (snd (projr greenFlagRunning))) = Some i
         \<and> threads (snd (projr greenFlagRunning)) ! i
             = last (filter (\<lambda>th. threadKey th = k) (fst (projr greenFlagRunning)))
         \<and> (k \<in> set (map threadKey (threads demoEngineRunning))
              \<longrightarrow> slotOf k (threads demoEngineRunning) = Some i
                \<and> threads demoEngineRunning ! i
                    \<notin> set (threads (snd (projr greenFlagRunning))))"
    by blast
  from this [rule_format, OF k(1)] k(2,3) have
    "threads (snd (projr greenFlagRunning)) ! 0
       = last (filter (\<lambda>th. threadKey th = (10, 0)) (fst (projr greenFlagRunning)))
     \<and> threads demoEngineRunning ! 0 \<notin> set (threads (snd (projr greenFlagRunning)))"
    by auto
  with wf ok c s ev k(3) show ?thesis by blast
qed

text \<open>
  Claim C3 as stated fails. In the example project the stage's green flag thread (object
  0) is in the thread list when the green flag hats are started. The sprite is visited
  first and its thread (object 1) is created first, the stage's replacement (object 2)
  second; in the thread list the stage's thread comes first, in the slot of the thread it
  replaces, and the sprite's second.
\<close>

theorem startHats_order_counterexample:
  "\<not> isl greenFlagRunning
   \<and> map vm_id (threads demoEngineRunning) = [0]
   \<and> map vm_id (fst (projr greenFlagRunning)) = [1, 2]
   \<and> map vm_id (threads (snd (projr greenFlagRunning))) = [2, 1]"
  by code_simp




text \<open>
  Claim C5, as the code has it. With a clone limit that is not negative, every modelled
  engine operation other than \<open>setCloneLimit\<close> keeps the clone count within the limit;
  \<open>initClone\<close> at the limit returns the engine as it was; and with the limit 2 and no
  clone, of three \<open>initClone\<close> calls that return, the first two leave 2 clones and the
  third changes nothing.
\<close>

theorem clone_limit_invariant:
  "(0 \<le> cloneLimit e \<and> cloneCount e \<le> cloneLimit e \<and> perform K e op = Inr e'
      \<and> \<not> isSetCloneLimit op
      \<longrightarrow> 0 \<le> cloneLimit e' \<and> cloneCount e' \<le> cloneLimit e')
   \<and> (0 \<le> cloneLimit e \<and> cloneLimit e \<le> cloneCount e \<longrightarrow> initClone e c = Inr e)
   \<and> (cloneLimit e0 = 2 \<and> clones e0 = [] \<and> initClone e0 (Some a) = Inr e1
        \<and> initClone e1 (Some b) = Inr e2 \<and> initClone e2 (Some d) = Inr e3
      \<longrightarrow> cloneCount e2 = 2 \<and> e3 = e2)"
proof (intro conjI impI)
  assume a: "0 \<le> cloneLimit e \<and> cloneCount e \<le> cloneLimit e \<and> perform K e op = Inr e'
      \<and> \<not> isSetCloneLimit op"
  then have p: "perform K e op = Inr e'" "\<not> isSetCloneLimit op" by auto
  from perform_clones [OF p] a show "0 \<le> cloneLimit e'" by simp
  from perform_clones [OF p] a show "cloneCount e' \<le> cloneLimit e'"
    by (auto simp: cloneCount_def)
next
  assume "0 \<le> cloneLimit e \<and> cloneLimit e \<le> cloneCount e"
  then show "initClone e c = Inr e"
    by (auto simp: initClone_def cloneCount_def split: option.splits)
next
  assume a: "cloneLimit e0 = 2 \<and> clones e0 = [] \<and> initClone e0 (Some a) = Inr e1
        \<and> initClone e1 (Some b) = Inr e2 \<and> initClone e2 (Some d) = Inr e3"
  then have i1: "initClone e0 (Some a) = Inr e1" and i2: "initClone e1 (Some b) = Inr e2"
    and i3: "initClone e2 (Some d) = Inr e3" by auto
  have c1: "clones e1 = [a]" "cloneLimit e1 = 2"
    using initClone_cases [OF i1] a
    by (auto dest!: startHats_frame dest: sameProject_fields(2,3))
  have c2: "clones e2 = [b, a]" "cloneLimit e2 = 2"
    using initClone_cases [OF i2] c1
    by (auto dest!: startHats_frame dest: sameProject_fields(2,3))
  show "cloneCount e2 = 2" using c2 by (simp add: cloneCount_def)
  show "e3 = e2" using i3 c2 by (simp add: initClone_def)
qed

theorem clone_limit_invariant_witness:
  "0 \<le> cloneLimit demoEngine \<and> cloneCount demoEngine \<le> cloneLimit demoEngine
   \<and> \<not> isl cloneOnce \<and> \<not> isl cloneTwice \<and> \<not> isl cloneThrice
   \<and> cloneCount (projr cloneOnce) \<le> cloneLimit (projr cloneOnce)
   \<and> initClone (projr cloneTwice) (Some 5) = Inr (projr cloneTwice)
   \<and> cloneCount (projr cloneTwice) = 2
   \<and> projr cloneThrice = projr cloneTwice"
proof -
  have pre: "0 \<le> cloneLimit demoEngine" "cloneCount demoEngine \<le> cloneLimit demoEngine"
    "cloneLimit demoEngine = 2" "clones demoEngine = []"
    by (simp_all add: demoEngine_def cloneCount_def)
  have ok: "\<not> isl cloneOnce" "\<not> isl cloneTwice" "\<not> isl cloneThrice"
    by code_simp+
  have 1: "initClone demoEngine (Some 3) = Inr (projr cloneOnce)"
    using Inr_projr_plain [OF ok(1)] by (simp add: cloneOnce_def)
  have 2: "initClone (projr cloneOnce) (Some 4) = Inr (projr cloneTwice)"
    using Inr_projr_plain [OF ok(2)] by (simp add: cloneTwice_def)
  have 3: "initClone (projr cloneTwice) (Some 5) = Inr (projr cloneThrice)"
    using Inr_projr_plain [OF ok(3)] by (simp add: cloneThrice_def)
  have p1: "perform 0 demoEngine (InitClone (Some 3)) = Inr (projr cloneOnce)"
    using 1 by simp
  note t = clone_limit_invariant
    [where e = demoEngine and K = 0 and op = "InitClone (Some 3)" and e' = "projr cloneOnce"
       and c = "Some 5"
       and ?e0.0 = demoEngine and a = 3 and ?e1.0 = "projr cloneOnce" and b = 4
       and ?e2.0 = "projr cloneTwice" and d = 5 and ?e3.0 = "projr cloneThrice"]
  have a: "cloneCount (projr cloneOnce) \<le> cloneLimit (projr cloneOnce)"
    using t [THEN conjunct1] pre(1,2) p1 by simp
  have b: "cloneCount (projr cloneTwice) = 2 \<and> projr cloneThrice = projr cloneTwice"
    using t [THEN conjunct2, THEN conjunct2] pre(3,4) 1 2 3 by blast
  have c: "initClone (projr cloneTwice) (Some 5) = Inr (projr cloneTwice)"
    using 3 b by simp
  show ?thesis
    using pre(1,2) ok a b c by blast
qed

text \<open>
  Claim C5 as stated fails at \<open>setCloneLimit\<close>: after two clones were initialised under
  the limit 2, lowering the limit to 1 leaves the two clones in place.
\<close>

theorem clone_limit_counterexample:
  "\<not> isl cloneTwice
   \<and> cloneCount (projr cloneTwice) \<le> cloneLimit (projr cloneTwice)
   \<and> 0 \<le> cloneLimit (setCloneLimit (projr cloneTwice) 1)
   \<and> cloneCount (setCloneLimit (projr cloneTwice) 1) = 2
   \<and> cloneLimit (setCloneLimit (projr cloneTwice) 1) = 1
   \<and> \<not> cloneCount (setCloneLimit (projr cloneTwice) 1)
         \<le> cloneLimit (setCloneLimit (projr cloneTwice) 1)"
  by code_simp

text \<open>
  Claim C6, as the code has it. For an accepted clone, \<open>initClone\<close> first starts the clone
  init hats: the scripts are those registered for the clone's root sprite, every new thread
  has the clone as its target, and the threads are appended to the thread list, all while
  the clone is in neither the clone set nor the executable targets. Only then is the
  clone added to the clone set and appended to the executable targets: what the call adds
  to the record of the engine is the constructions of the new threads, in order, followed
  by the insertion into the clone set and the one into the executable targets.
\<close>

theorem initClone_starts_hats_then_adds_clone:
  assumes "initClone e (Some c) = Inr e'"
    and "\<not> (0 \<le> cloneLimit e \<and> cloneLimit e \<le> cloneCount e)"
    and "\<not> isStage e c"
  shows "\<exists>rootSprite newThreads e1.
           cloneSprite e c = Some rootSprite
         \<and> startHats e CloneInit [] (Some c) = Inr (newThreads, e1)
         \<and> c \<notin> set (clones e1) \<and> c \<notin> set (executableTargets e1)
         \<and> threads e1 = threads e @ newThreads
         \<and> list_all (\<lambda>th. vm_target th = c \<and> \<not> vm_atEnd th) newThreads
         \<and> subseq (map vm_script newThreads) (cloneInitHats e rootSprite)
         \<and> (distinct (cloneInitHats e rootSprite)
              \<longrightarrow> map vm_script newThreads = cloneInitHats e rootSprite)
         \<and> events e1 = events e @ map created newThreads
         \<and> e' = e1\<lparr>clones := c # clones e, executableTargets := executableTargets e @ [c],
                    events := events e1 @ [CloneInserted c, TargetAppended c]\<rparr>
         \<and> threads e' = threads e @ newThreads
         \<and> events e' = events e @ map created newThreads
                          @ [CloneInserted c, TargetAppended c]"
proof -
  from initClone_cases [OF assms(1)] assms(2) obtain rootSprite newThreads e1 where
    r: "cloneSprite e c = Some rootSprite" and
    nf: "List.find (\<lambda>th. vm_target th = c \<and> \<not> vm_atEnd th) (threads e) = None" and
    sh: "startHats e CloneInit [] (Some c) = Inr (newThreads, e1)" and
    notin: "c \<notin> set (clones e1)" "c \<notin> set (executableTargets e1)" and
    e': "e' = e1\<lparr>clones := c # clones e1, executableTargets := executableTargets e1 @ [c],
                  events := events e1 @ [CloneInserted c, TargetAppended c]\<rparr>"
    by (auto simp: cloneCount_def)
  have sp: "sameProject e e1" using startHats_frame [OF sh] .
  have vo: "visitOrder e CloneInit (Some c) = map (\<lambda>s. (s, c)) (cloneInitHats e rootSprite)"
    using r assms(3) by (simp add: visitOrder_def getHats_def isClone_def)
  have v: "visitAll CloneInit [] (map (\<lambda>s. (s, c)) (cloneInitHats e rootSprite)) ([], e)
             = Inr (newThreads, e1)"
    using sh vo by (simp add: startHats_visitAll)
  have nr: "\<not> hatRestartExistingThreads CloneInit" by simp
  from visitAll_norestart [OF v nr] have
    t: "threads e1 = threads e @ newThreads" and
    sub: "subseq (map threadKey newThreads) (map (\<lambda>s. (s, c)) (cloneInitHats e rootSprite))" and
    live: "list_all (\<lambda>th. \<not> vm_atEnd th) newThreads" and
    ev: "events e1 = events e @ map created newThreads"
    by auto
  have keys: "set (map threadKey newThreads) \<subseteq> set (map (\<lambda>s. (s, c)) (cloneInitHats e rootSprite))"
    using sub by (rule subseq_set_mono)
  have tg: "list_all (\<lambda>th. vm_target th = c \<and> \<not> vm_atEnd th) newThreads"
    using keys live by (auto simp: list_all_iff threadKey_def)
  have k1: "map fst (map threadKey xs) = map vm_script xs" for xs
    by (induction xs) (simp_all add: threadKey_def)
  have k2: "map fst (map (\<lambda>s. (s, c)) hs) = hs" for hs :: "nat list"
    by (induction hs) simp_all
  have sc: "subseq (map vm_script newThreads) (cloneInitHats e rootSprite)"
    using subseq_map [OF sub, of fst] by (simp only: k1 k2)
  have norun: "\<forall>s \<in> set (cloneInitHats e rootSprite). \<not> running e (s, c)"
    using nf by (auto simp: find_None_iff running_def list_ex_iff threadKey_def)
  have all: "map vm_script newThreads = cloneInitHats e rootSprite"
    if "distinct (cloneInitHats e rootSprite)"
  proof -
    from visitAll_norestart_all [OF v nr that norun] have
      "map threadKey newThreads = map (\<lambda>s. (s, c)) (cloneInitHats e rootSprite)" by simp
    then have "map fst (map threadKey newThreads)
                 = map fst (map (\<lambda>s. (s, c)) (cloneInitHats e rootSprite))" by simp
    then show ?thesis by (simp only: k1 k2)
  qed
  have e'': "e' = e1\<lparr>clones := c # clones e, executableTargets := executableTargets e @ [c],
                     events := events e1 @ [CloneInserted c, TargetAppended c]\<rparr>"
    using e' sameProject_fields(1,2) [OF sp] by simp
  have t': "threads e' = threads e @ newThreads"
    by (subst e'') (simp add: t)
  have ev': "events e' = events e @ map created newThreads
                          @ [CloneInserted c, TargetAppended c]"
    by (subst e'') (simp add: ev)
  show ?thesis
    using r sh notin t tg sc all ev e'' t' ev' by blast
qed

theorem initClone_starts_hats_then_adds_clone_witness:
  "\<not> isl cloneOnce
   \<and> \<not> (0 \<le> cloneLimit demoEngine \<and> cloneLimit demoEngine \<le> cloneCount demoEngine)
   \<and> \<not> isStage demoEngine 3
   \<and> cloneSprite demoEngine 3 = Some 1
   \<and> cloneInitHats demoEngine 1 = [12]
   \<and> map threadKey (threads (projr cloneOnce)) = [(12, 3)]
   \<and> clones (projr cloneOnce) = [3]
   \<and> executableTargets (projr cloneOnce) = [0, 1, 2, 3]
   \<and> (\<exists>newThreads e1.
         startHats demoEngine CloneInit [] (Some 3) = Inr (newThreads, e1)
       \<and> 3 \<notin> set (clones e1) \<and> 3 \<notin> set (executableTargets e1)
       \<and> map vm_script newThreads = [12]
       \<and> threads (projr cloneOnce) = threads demoEngine @ newThreads
       \<and> events (projr cloneOnce)
           = events demoEngine @ map created newThreads @ [CloneInserted 3, TargetAppended 3])"
proof -
  have ok: "\<not> isl cloneOnce" by code_simp
  have 1: "initClone demoEngine (Some 3) = Inr (projr cloneOnce)"
    using Inr_projr_plain [OF ok] by (simp add: cloneOnce_def)
  have pre: "\<not> (0 \<le> cloneLimit demoEngine \<and> cloneLimit demoEngine \<le> cloneCount demoEngine)"
    "\<not> isStage demoEngine 3" "cloneSprite demoEngine 3 = Some 1"
    "cloneInitHats demoEngine 1 = [12]"
    by (simp_all add: demoEngine_def cloneCount_def)
  have c: "map threadKey (threads (projr cloneOnce)) = [(12, 3)]
     \<and> clones (projr cloneOnce) = [3]
     \<and> executableTargets (projr cloneOnce) = [0, 1, 2, 3]"
    by code_simp
  from initClone_starts_hats_then_adds_clone [OF 1 pre(1) pre(2)] pre(3,4)
  have "\<exists>newThreads e1.
         startHats demoEngine CloneInit [] (Some 3) = Inr (newThreads, e1)
       \<and> 3 \<notin> set (clones e1) \<and> 3 \<notin> set (executableTargets e1)
       \<and> map vm_script newThreads = [12]
       \<and> threads (projr cloneOnce) = threads demoEngine @ newThreads
       \<and> events (projr cloneOnce)
           = events demoEngine @ map created newThreads @ [CloneInserted 3, TargetAppended 3]"
    by auto
  with ok pre c show ?thesis by simp
qed

text \<open>
  Claim C6 as stated fails. \<open>initClone\<close> accepts clone 3 of the example project. The
  record of the engine afterwards shows the order: the clone's thread (object 0, of script
  12) was constructed first, the clone was inserted into the clone set and appended to
  the executable targets after that. Accordingly, in the engine state that the call of
  \<open>startHats\<close> starts from and in the one it returns, the clone is in neither.
\<close>

theorem initClone_order_counterexample:
  "\<not> isl cloneOnce \<and> \<not> isl cloneHats
   \<and> events demoEngine = []
   \<and> events (projr cloneOnce) = [ThreadCreated 0 12 3, CloneInserted 3, TargetAppended 3]
   \<and> map threadKey (fst (projr cloneHats)) = [(12, 3)]
   \<and> threads (snd (projr cloneHats)) = fst (projr cloneHats)
   \<and> 3 \<notin> set (clones demoEngine) \<and> 3 \<notin> set (executableTargets demoEngine)
   \<and> 3 \<notin> set (clones (snd (projr cloneHats)))
   \<and> 3 \<notin> set (executableTargets (snd (projr cloneHats)))
   \<and> threads (projr cloneOnce) = threads (snd (projr cloneHats))
   \<and> clones (projr cloneOnce) = [3]"
  by code_simp

text \<open>
  Claim C8, as the code has it. Every \<open>setKeyState\<close> with \<open>pressed = true\<close> that returns
  has started the key hats for the key name and then those for "any", whatever the key map
  recorded before, and the threads started are appended to the thread list. The first
  call starts one thread for every visited key hat whose key option is the key name and
  that has no unfinished thread, and no other; the second does the same for the key option
  "any", after the threads of the first were added. Repeating the call at once therefore
  starts nothing and returns the same engine state.
\<close>

theorem setKeyState_fires_on_every_press:
  assumes "setKeyState K e k True = Inr e'"
  shows "(\<exists>n1 e1 n2.
            startHats (e\<lparr>keyMap := (keyMap e)(k \<mapsto> True)\<rparr>) KeyPressed [(K, k)] None
              = Inr (n1, e1)
            \<and> startHats e1 KeyPressed [(K, ''any'')] None = Inr (n2, e')
            \<and> threads e1 = threads e @ n1
            \<and> threads e' = threads e @ n1 @ n2
            \<and> list_all (\<lambda>th. \<not> vm_atEnd th) (n1 @ n2)
            \<and> subseq (map threadKey n1) (visitOrder e KeyPressed None)
            \<and> distinct (map threadKey n1)
            \<and> set (map threadKey n1)
                = {p \<in> set (visitOrder e KeyPressed None).
                     matching e [(K, k)] p \<and> \<not> running e p}
            \<and> subseq (map threadKey n2) (visitOrder e KeyPressed None)
            \<and> distinct (map threadKey n2)
            \<and> set (map threadKey n2)
                = {p \<in> set (visitOrder e KeyPressed None).
                     matching e [(K, ''any'')] p \<and> \<not> running e1 p})
       \<and> setKeyState K e' k True = Inr e'"
proof -
  let ?e0 = "e\<lparr>keyMap := (keyMap e)(k \<mapsto> True)\<rparr>"
  from assms obtain n1 e1 n2 where
    1: "startHats ?e0 KeyPressed [(K, k)] None = Inr (n1, e1)" and
    2: "startHats e1 KeyPressed [(K, ''any'')] None = Inr (n2, e')"
    by (auto simp: setKeyState_def Let_def split: sum.splits)
  have nr: "\<not> hatRestartExistingThreads KeyPressed" by simp
  let ?ps = "visitOrder e KeyPressed None"
  have ps0: "visitOrder ?e0 KeyPressed None = ?ps"
    by (simp add: keyMap_update_same)
  have v1: "visitAll KeyPressed [(K, k)] ?ps ([], ?e0) = Inr (n1, e1)"
    using 1 ps0 by (simp add: startHats_visitAll)
  have sp1: "sameProject ?e0 e1" using visitAll_frame [OF v1] by simp
  have ps1: "visitOrder e1 KeyPressed None = ?ps"
    using sameProject_fields(10) [OF sp1] ps0 by simp
  have v2: "visitAll KeyPressed [(K, ''any'')] ?ps ([], e1) = Inr (n2, e')"
    using 2 ps1 by (simp add: startHats_visitAll)
  have sp2: "sameProject e1 e'" using visitAll_frame [OF v2] by simp
  have sp: "sameProject ?e0 e'" using sp1 sp2 by (rule sameProject_trans)
  have ps2: "visitOrder e' KeyPressed None = ?ps"
    using sameProject_fields(10) [OF sp] ps0 by simp
  have fm1: "fieldsMatch e1 = fieldsMatch ?e0" using sp1 by (rule sameProject_fields)
  have fm2: "fieldsMatch e' = fieldsMatch ?e0" using sp by (rule sameProject_fields)
  have m1: "matching e1 = matching e"
    using fm1 keyMap_update_same(2) [where e = e and m = "(keyMap e)(k \<mapsto> True)"]
    by (simp add: matching_def fun_eq_iff)
  from visitAll_norestart [OF v1 nr] have
    t1: "threads e1 = threads ?e0 @ n1" and
    l1: "list_all (\<lambda>th. \<not> vm_atEnd th) n1" and
    q1: "subseq (map threadKey n1) ?ps" and
    r1: "\<forall>(s, t) \<in> set ?ps. fieldsMatch ?e0 [(K, k)] s = Inr True \<longrightarrow> running e1 (s, t)"
    by auto
  from visitAll_norestart [OF v2 nr] have
    t2: "threads e' = threads e1 @ n2" and
    l2: "list_all (\<lambda>th. \<not> vm_atEnd th) n2" and
    q2: "subseq (map threadKey n2) ?ps" and
    r2: "\<forall>(s, t) \<in> set ?ps. fieldsMatch e1 [(K, ''any'')] s = Inr True \<longrightarrow> running e' (s, t)"
    by auto
  from visitAll_norestart_started [OF v1 nr] have
    d1: "distinct (map threadKey n1)" and
    s1: "set (map threadKey n1) = {p \<in> set ?ps. matching e [(K, k)] p \<and> \<not> running e p}"
    by (simp_all add: keyMap_update_same)
  from visitAll_norestart_started [OF v2 nr] have
    d2: "distinct (map threadKey n2)" and
    s2: "set (map threadKey n2)
           = {p \<in> set ?ps. matching e [(K, ''any'')] p \<and> \<not> running e1 p}"
    by (simp_all add: m1)
  have r1': "\<forall>(s, t) \<in> set ?ps. fieldsMatch e' [(K, k)] s = Inr True \<longrightarrow> running e' (s, t)"
    using r1 t2 fm2 by (auto intro: running_mono)
  have r2': "\<forall>(s, t) \<in> set ?ps. fieldsMatch e' [(K, ''any'')] s = Inr True \<longrightarrow> running e' (s, t)"
    using r2 fm1 fm2 by auto
  have ne1: "\<forall>(s, t) \<in> set ?ps. \<not> isl (fieldsMatch e' [(K, k)] s)"
    using visitAll_no_error [OF v1] fm2 by auto
  have ne2: "\<forall>(s, t) \<in> set ?ps. \<not> isl (fieldsMatch e' [(K, ''any'')] s)"
    using visitAll_no_error [OF v2] fm1 fm2 by auto
  have km: "keyMap e' = (keyMap e)(k \<mapsto> True)"
    using sameProject_fields(4) [OF sp] by simp
  have same: "e'\<lparr>keyMap := (keyMap e')(k \<mapsto> True)\<rparr> = e'"
    by (simp add: km)
  have a1: "startHats e' KeyPressed [(K, k)] None = Inr ([], e')"
    using visitAll_norestart_idle [OF nr ne1 r1'] ps2 by (simp add: startHats_visitAll)
  have a2: "startHats e' KeyPressed [(K, ''any'')] None = Inr ([], e')"
    using visitAll_norestart_idle [OF nr ne2 r2'] ps2 by (simp add: startHats_visitAll)
  have again: "setKeyState K e' k True = Inr e'"
    by (simp add: setKeyState_def same a1 a2)
  have t1': "threads e1 = threads e @ n1" using t1 by simp
  have t2': "threads e' = threads e @ n1 @ n2" using t1 t2 by simp
  have l: "list_all (\<lambda>th. \<not> vm_atEnd th) (n1 @ n2)" using l1 l2 by simp
  show ?thesis
    using 1 2 t1' t2' l q1 d1 s1 q2 d2 s2 again by blast
qed

theorem setKeyState_fires_on_every_press_witness:
  "\<not> isl keyOnce
   \<and> visitOrder demoEngine KeyPressed None = [(13, 2), (14, 1)]
   \<and> map threadKey (threads (projr keyOnce)) = [(13, 2), (14, 1)]
   \<and> (\<exists>n1 e1 n2.
         startHats (demoEngine\<lparr>keyMap := (keyMap demoEngine)(''space'' \<mapsto> True)\<rparr>)
           KeyPressed [(0, ''space'')] None = Inr (n1, e1)
       \<and> startHats e1 KeyPressed [(0, ''any'')] None = Inr (n2, projr keyOnce)
       \<and> threads (projr keyOnce) = threads demoEngine @ n1 @ n2
       \<and> set (map threadKey n1)
           = {p \<in> set (visitOrder demoEngine KeyPressed None).
                matching demoEngine [(0, ''space'')] p \<and> \<not> running demoEngine p})
   \<and> setKeyState 0 (projr keyOnce) ''space'' True = Inr (projr keyOnce)"
proof -
  have ok: "\<not> isl keyOnce" by code_simp
  have 1: "setKeyState 0 demoEngine ''space'' True = Inr (projr keyOnce)"
    using Inr_projr_plain [OF ok] by (simp add: keyOnce_def)
  have c: "visitOrder demoEngine KeyPressed None = [(13, 2), (14, 1)]
     \<and> map threadKey (threads (projr keyOnce)) = [(13, 2), (14, 1)]" by code_simp
  from setKeyState_fires_on_every_press [OF 1] have
    "(\<exists>n1 e1 n2.
         startHats (demoEngine\<lparr>keyMap := (keyMap demoEngine)(''space'' \<mapsto> True)\<rparr>)
           KeyPressed [(0, ''space'')] None = Inr (n1, e1)
       \<and> startHats e1 KeyPressed [(0, ''any'')] None = Inr (n2, projr keyOnce)
       \<and> threads (projr keyOnce) = threads demoEngine @ n1 @ n2
       \<and> set (map threadKey n1)
           = {p \<in> set (visitOrder demoEngine KeyPressed None).
                matching demoEngine [(0, ''space'')] p \<and> \<not> running demoEngine p})
     \<and> setKeyState 0 (projr keyOnce) ''space'' True = Inr (projr keyOnce)"
    by blast
  with ok c show ?thesis by blast
qed

text \<open>
  Claim C8 as stated fails: with the space key already recorded as pressed and no thread
  running, \<open>setKeyState\<close> for the space key starts the key hat of the space key and the
  one of "any" again.
\<close>

theorem setKeyState_counterexample:
  "keyMap heldEngine ''space'' = Some True
   \<and> threads heldEngine = []
   \<and> \<not> isl keyHeld
   \<and> map vm_script (threads (projr keyHeld)) = [13, 14]"
  by code_simp

text \<open>
  Claim C9, as the code has it. With the stage first among the executable targets and no
  target listed twice, for a sprite \<open>s\<close> among them the three calls return, the last one
  with \<open>s\<close> as the last entry, and the stage stays first. When there are more than two
  executable targets, after each call every entry but the first has its index as layer
  order. With at most two, each call returns the engine unchanged, layer orders
  included.
\<close>

theorem front_back_front:
  assumes "stageFirst e" and "s \<in> set (tl (executableTargets e))"
  shows "\<exists>e1 e2 e3.
           moveSpriteToFront e (Some s) = Inr e1
         \<and> moveSpriteToBack e1 (Some s) = Inr e2
         \<and> moveSpriteToFront e2 (Some s) = Inr e3
         \<and> last (executableTargets e3) = s
         \<and> stageFirst e1 \<and> stageFirst e2 \<and> stageFirst e3
         \<and> (2 < length (executableTargets e) \<or> layerOrderMatchesIndex e
              \<longrightarrow> layerOrderMatchesIndex e1 \<and> layerOrderMatchesIndex e2
                  \<and> layerOrderMatchesIndex e3)
         \<and> (length (executableTargets e) \<le> 2 \<longrightarrow> e1 = e \<and> e2 = e \<and> e3 = e)"
proof -
  from moveSpriteToFront_ok [OF assms] obtain e1 where
    1: "moveSpriteToFront e (Some s) = Inr e1" "stageFirst e1"
       "set (tl (executableTargets e1)) = set (tl (executableTargets e))"
       "2 < length (executableTargets e) \<or> layerOrderMatchesIndex e
          \<longrightarrow> layerOrderMatchesIndex e1"
       "length (executableTargets e) \<le> 2 \<longrightarrow> e1 = e"
    by blast
  have s1: "s \<in> set (tl (executableTargets e1))" using 1(3) assms(2) by simp
  from moveSpriteToBack_ok [OF 1(2) s1] obtain e2 where
    2: "moveSpriteToBack e1 (Some s) = Inr e2" "stageFirst e2"
       "set (tl (executableTargets e2)) = set (tl (executableTargets e1))"
       "2 < length (executableTargets e1) \<or> layerOrderMatchesIndex e1
          \<longrightarrow> layerOrderMatchesIndex e2"
       "length (executableTargets e1) \<le> 2 \<longrightarrow> e2 = e1"
    by blast
  have s2: "s \<in> set (tl (executableTargets e2))" using 2(3) s1 by simp
  from moveSpriteToFront_ok [OF 2(2) s2] obtain e3 where
    3: "moveSpriteToFront e2 (Some s) = Inr e3" "stageFirst e3"
       "last (executableTargets e3) = s"
       "2 < length (executableTargets e2) \<or> layerOrderMatchesIndex e2
          \<longrightarrow> layerOrderMatchesIndex e3"
       "length (executableTargets e2) \<le> 2 \<longrightarrow> e3 = e2"
    by blast
  have "length (executableTargets e) \<le> 2 \<longrightarrow> e1 = e \<and> e2 = e \<and> e3 = e"
    using 1(5) 2(5) 3(5) by auto
  with 1 2 3 show ?thesis by blast
qed

theorem front_back_front_witness:
  "stageFirst demoEngine \<and> 1 \<in> set (tl (executableTargets demoEngine))
   \<and> 2 < length (executableTargets demoEngine)
   \<and> (\<exists>e1 e2 e3.
         moveSpriteToFront demoEngine (Some 1) = Inr e1
       \<and> moveSpriteToBack e1 (Some 1) = Inr e2
       \<and> moveSpriteToFront e2 (Some 1) = Inr e3
       \<and> last (executableTargets e3) = 1
       \<and> layerOrderMatchesIndex e1 \<and> layerOrderMatchesIndex e2
       \<and> layerOrderMatchesIndex e3)"
proof -
  have pre: "stageFirst demoEngine" "1 \<in> set (tl (executableTargets demoEngine))"
    "2 < length (executableTargets demoEngine)"
    by (simp_all add: stageFirst_def demoEngine_def)
  from front_back_front [OF pre(1) pre(2)] pre show ?thesis by blast
qed

text \<open>
  Claim C9 as stated fails for its layer orders when the stage and one sprite are all the
  executable targets: \<open>moveSpriteToFront\<close> returns at once, and the sprite at index 1
  keeps the layer order 7 it was loaded with.
\<close>

theorem layer_order_counterexample:
  "stageFirst twoTargets
   \<and> \<not> isl twoTargetsFront
   \<and> executableTargets (projr twoTargetsFront) = [0, 1]
   \<and> layerOrder (projr twoTargetsFront) 1 = 7
   \<and> layerOrderMatchesIndex (projr twoTargetsFront) = False"
  by code_simp

end
